theory Spec2Isabelle
  imports Complex_Main "HOL-Library.AList"
begin

section \<open>Python values used by data_utils.py\<close>

text \<open>
  The module is read with the semantics of Python 3 (its nested \<^verbatim>\<open>safe_extract\<close> has a
  keyword-only parameter): a \<^verbatim>\<open>dict\<close> iterates in insertion order, so it is an association
  list with distinct keys, updated in place (\<open>AList.update\<close>) and read with \<open>map_of\<close>;
  \<^verbatim>\<open>sorted\<close> is stable, also with \<^verbatim>\<open>reverse=True\<close>; the name \<^verbatim>\<open>xrange\<close> is not bound. The
  content of a \<^verbatim>\<open>bytes\<close> object and of an (ASCII) \<^verbatim>\<open>str\<close> object is a \<open>string\<close>; where a function
  can receive either, its argument is a \<open>pystr\<close>. The exceptions the modelled code can raise
  are values of \<open>error\<close>.
\<close>

datatype error = IndexError | ValueError | ZeroDivisionError | TypeError | NameError

text \<open>Sequencing: the first exception raised ends the computation.\<close>

definition ebind :: "error + 'a \<Rightarrow> ('a \<Rightarrow> error + 'b) \<Rightarrow> error + 'b" where
  "ebind r f = (case r of Inl e \<Rightarrow> Inl e | Inr x \<Rightarrow> f x)"

text \<open>Subscripting a list, \<^verbatim>\<open>xs[i]\<close>: index \<open>-k\<close> is the k-th entry from the end; IndexError outside.\<close>

definition py_index :: "'a list \<Rightarrow> int \<Rightarrow> error + 'a" where
  "py_index xs i =
     (if 0 \<le> i \<and> i < int (length xs) then Inr (xs ! nat i)
      else if i < 0 \<and> - int (length xs) \<le> i then Inr (xs ! nat (int (length xs) + i))
      else Inl IndexError)"

text \<open>\<^verbatim>\<open>xs[:m]\<close>: a negative bound counts from the end.\<close>

definition py_slice_to :: "'a list \<Rightarrow> int \<Rightarrow> 'a list" where
  "py_slice_to xs m = (if m < 0 then take (nat (int (length xs) + m)) xs else take (nat m) xs)"

text \<open>
  Whitespace of \<^verbatim>\<open>bytes.strip\<close> and \<^verbatim>\<open>bytes.split\<close>: space, tab, newline, carriage return,
  vertical tab, form feed. \<^verbatim>\<open>str.strip\<close> and \<^verbatim>\<open>str.split\<close> add the four separators
  \<^verbatim>\<open>\x1c\<close> to \<^verbatim>\<open>\x1f\<close> (within ASCII).
\<close>

definition is_space :: "char \<Rightarrow> bool" where
  "is_space c = (c \<in> set [CHR '' '', CHR 0x09, CHR 0x0A, CHR 0x0D, CHR 0x0B, CHR 0x0C])"

definition is_space_str :: "char \<Rightarrow> bool" where
  "is_space_str c = (is_space c \<or> c \<in> set [CHR 0x1C, CHR 0x1D, CHR 0x1E, CHR 0x1F])"

definition strip_by :: "(char \<Rightarrow> bool) \<Rightarrow> string \<Rightarrow> string" where
  "strip_by sp s = rev (dropWhile sp (rev (dropWhile sp s)))"

text \<open>\<^verbatim>\<open>s.split()\<close>: the maximal runs of non-whitespace, in order; \<open>cur\<close> is the run being read.\<close>

fun split_acc :: "(char \<Rightarrow> bool) \<Rightarrow> string \<Rightarrow> string \<Rightarrow> string list" where
  "split_acc sp cur [] = (if cur = [] then [] else [cur])"
| "split_acc sp cur (c # cs) =
     (if sp c then (if cur = [] then split_acc sp [] cs else cur # split_acc sp [] cs)
      else split_acc sp (cur @ [c]) cs)"

definition split_by :: "(char \<Rightarrow> bool) \<Rightarrow> string \<Rightarrow> string list" where
  "split_by sp s = split_acc sp [] s"

text \<open>
  The lines of a file opened in binary mode (\<^verbatim>\<open>for line in f\<close>, \<^verbatim>\<open>f.readlines()\<close>): each
  line ends after its \<^verbatim>\<open>\n\<close>, which it keeps; a last line without one is a line too.
\<close>

fun readlines_acc :: "string \<Rightarrow> string \<Rightarrow> string list" where
  "readlines_acc cur [] = (if cur = [] then [] else [cur])"
| "readlines_acc cur (c # cs) =
     (if c = CHR 0x0A then (cur @ [c]) # readlines_acc [] cs else readlines_acc (cur @ [c]) cs)"

definition readlines :: "string \<Rightarrow> string list" where
  "readlines content = readlines_acc [] content"

section \<open>Vocabulary symbols and the tokenizer\<close>

definition START_VOCAB :: "string list" where
  "START_VOCAB = [''_PAD'', ''_GO'', ''_EOS'', ''_UNK'']"

definition PAD_ID :: int where "PAD_ID = 0"
definition GO_ID :: int where "GO_ID = 1"
definition EOS_ID :: int where "EOS_ID = 2"
definition UNK_ID :: int where "UNK_ID = 3"

text \<open>\<^verbatim>\<open>_DIGIT_RE.sub(b"0", w)\<close>: on bytes, \<^verbatim>\<open>\d\<close> matches the ten ASCII digits only.\<close>

definition is_digit :: "char \<Rightarrow> bool" where
  "is_digit c = (c \<in> set ''0123456789'')"

definition digit_sub :: "string \<Rightarrow> string" where
  "digit_sub w = map (\<lambda>c. if is_digit c then CHR ''0'' else c) w"

definition basic_tokenizer :: "string \<Rightarrow> string list" where
  "basic_tokenizer sentence = split_by is_space (strip_by is_space sentence)"

text \<open>\<^verbatim>\<open>tokenizer(line) if tokenizer else basic_tokenizer(line)\<close>\<close>

definition tokenize :: "(string \<Rightarrow> string list) option \<Rightarrow> string \<Rightarrow> string list" where
  "tokenize tokenizer line = (case tokenizer of Some t \<Rightarrow> t line | None \<Rightarrow> basic_tokenizer line)"

section \<open>create_vocabulary\<close>

text \<open>The body of the loop over the tokens of a line: count \<open>word\<close> in the dict \<open>vocab\<close>.\<close>

definition count_word :: "bool \<Rightarrow> (string \<times> nat) list \<Rightarrow> string \<Rightarrow> (string \<times> nat) list" where
  "count_word normalize_digits vocab w =
     (let word = (if normalize_digits then digit_sub w else w)
      in case map_of vocab word of
           Some c \<Rightarrow> AList.update word (c + 1) vocab
         | None \<Rightarrow> AList.update word 1 vocab)"

definition count_line ::
  "(string \<Rightarrow> string list) option \<Rightarrow> bool \<Rightarrow> (string \<times> nat) list \<Rightarrow> string \<Rightarrow> (string \<times> nat) list" where
  "count_line tokenizer normalize_digits vocab line =
     foldl (count_word normalize_digits) vocab (tokenize tokenizer line)"

definition count_file ::
  "(string \<Rightarrow> string list) option \<Rightarrow> bool \<Rightarrow> string \<Rightarrow> (string \<times> nat) list" where
  "count_file tokenizer normalize_digits data =
     foldl (count_line tokenizer normalize_digits) [] (readlines data)"

text \<open>\<^verbatim>\<open>sorted(vocab, key=vocab.get, reverse=True)\<close>: the keys, by descending count, stably.\<close>

definition sorted_by_count :: "(string \<times> nat) list \<Rightarrow> string list" where
  "sorted_by_count vocab = map fst (sort_key (\<lambda>p. - int (snd p)) vocab)"

definition vocab_list ::
  "string \<Rightarrow> int \<Rightarrow> (string \<Rightarrow> string list) option \<Rightarrow> bool \<Rightarrow> string list" where
  "vocab_list data max_vocabulary_size tokenizer normalize_digits =
     (let vl = START_VOCAB @ sorted_by_count (count_file tokenizer normalize_digits data)
      in if int (length vl) > max_vocabulary_size then py_slice_to vl max_vocabulary_size else vl)"

text \<open>The result is the content written to the vocabulary file, one token per line.\<close>

definition create_vocabulary ::
  "string \<Rightarrow> int \<Rightarrow> (string \<Rightarrow> string list) option \<Rightarrow> bool \<Rightarrow> string" where
  "create_vocabulary data max_vocabulary_size tokenizer normalize_digits =
     concat (map (\<lambda>w. w @ [CHR 0x0A])
       (vocab_list data max_vocabulary_size tokenizer normalize_digits))"

section \<open>initialize_vocabulary and sentence_to_token_ids\<close>

text \<open>
  The vocabulary file is \<open>None\<close> when the path does not exist. The dict is built from the
  pairs of \<^verbatim>\<open>enumerate(rev_vocab)\<close> in order, a later pair replacing the value of an equal key.
\<close>

definition dict_of_enumerate :: "string list \<Rightarrow> (string \<times> int) list" where
  "dict_of_enumerate rev_vocab =
     foldl (\<lambda>d (y, x). AList.update x (int y) d) [] (enumerate 0 rev_vocab)"

definition initialize_vocabulary :: "string option \<Rightarrow> error + ((string \<times> int) list \<times> string list)" where
  "initialize_vocabulary vocabulary_file =
     (case vocabulary_file of
        None \<Rightarrow> Inl ValueError
      | Some content \<Rightarrow>
          (let rev_vocab = map (strip_by is_space) (readlines content)
           in Inr (dict_of_enumerate rev_vocab, rev_vocab)))"

text \<open>\<^verbatim>\<open>vocabulary.get(w, UNK_ID)\<close>\<close>

definition dict_get :: "('k \<times> 'v) list \<Rightarrow> 'k \<Rightarrow> 'v \<Rightarrow> 'v" where
  "dict_get d k dflt = (case map_of d k of Some v \<Rightarrow> v | None \<Rightarrow> dflt)"

text \<open>
  \<^verbatim>\<open>sentence_to_token_ids\<close> is documented for a sentence in bytes format but runs on whatever
  it is given. A \<^verbatim>\<open>bytes\<close> and a \<^verbatim>\<open>str\<close> object are never equal, also as dict keys;
  \<^verbatim>\<open>basic_tokenizer\<close> splits either kind into tokens of the same kind; the pattern
  \<^verbatim>\<open>_DIGIT_RE\<close> is a bytes pattern, and \<^verbatim>\<open>_DIGIT_RE.sub(b"0", w)\<close> raises TypeError when
  \<^verbatim>\<open>w\<close> is a \<^verbatim>\<open>str\<close>. A tokenizer passed by the caller may return tokens of either kind,
  or raise.
\<close>

datatype pystr = Bytes string | Str string

definition basic_tokenizer_any :: "pystr \<Rightarrow> pystr list" where
  "basic_tokenizer_any sentence =
     (case sentence of
        Bytes b \<Rightarrow> map Bytes (basic_tokenizer b)
      | Str t \<Rightarrow> map Str (split_by is_space_str (strip_by is_space_str t)))"

definition tokenize_any :: "(pystr \<Rightarrow> error + pystr list) option \<Rightarrow> pystr \<Rightarrow> error + pystr list" where
  "tokenize_any tokenizer sentence =
     (case tokenizer of Some t \<Rightarrow> t sentence | None \<Rightarrow> Inr (basic_tokenizer_any sentence))"

definition digit_re_sub :: "pystr \<Rightarrow> error + pystr" where
  "digit_re_sub w = (case w of Bytes b \<Rightarrow> Inr (Bytes (digit_sub b)) | Str t \<Rightarrow> Inl TypeError)"

text \<open>
  The list comprehension \<^verbatim>\<open>[vocabulary.get(_DIGIT_RE.sub(b"0", w), UNK_ID) for w in words]\<close>:
  the first token on which the substitution raises ends it.
\<close>

fun normalized_ids :: "(pystr \<times> int) list \<Rightarrow> pystr list \<Rightarrow> error + int list" where
  "normalized_ids vocabulary [] = Inr []"
| "normalized_ids vocabulary (w # words) =
     ebind (digit_re_sub w) (\<lambda>k.
     ebind (normalized_ids vocabulary words) (\<lambda>ids.
     Inr (dict_get vocabulary k UNK_ID # ids)))"

definition sentence_to_token_ids ::
  "pystr \<Rightarrow> (pystr \<times> int) list \<Rightarrow> (pystr \<Rightarrow> error + pystr list) option \<Rightarrow> bool \<Rightarrow>
   error + int list" where
  "sentence_to_token_ids sentence vocabulary tokenizer normalize_digits =
     ebind (tokenize_any tokenizer sentence) (\<lambda>words.
       if \<not> normalize_digits then Inr (map (\<lambda>w. dict_get vocabulary w UNK_ID) words)
       else normalized_ids vocabulary words)"

section \<open>ids_to_tokens\<close>

text \<open>
  \<^verbatim>\<open>np.argmax\<close> of a flattened attention row: the first index of a largest entry; an empty
  row raises. Attention weights are finite numbers, taken as reals.
\<close>

fun argmax_acc :: "real \<Rightarrow> nat \<Rightarrow> nat \<Rightarrow> real list \<Rightarrow> nat" where
  "argmax_acc best bi i [] = bi"
| "argmax_acc best bi i (y # ys) =
     (if y > best then argmax_acc y i (Suc i) ys else argmax_acc best bi (Suc i) ys)"

definition np_argmax :: "real list \<Rightarrow> error + nat" where
  "np_argmax row = (case row of [] \<Rightarrow> Inl ValueError | x # xs \<Rightarrow> Inr (argmax_acc x 0 1 xs))"

text \<open>
  The word for a position whose id is 3: \<^verbatim>\<open>"_UNK"\<close>, replaced when a translation table is
  given (\<^verbatim>\<open>unk_replace\<close>). \<^verbatim>\<open>attention_history\<close> and \<^verbatim>\<open>test_source_orig_tok\<close> may be
  \<^verbatim>\<open>None\<close>; subscripting \<^verbatim>\<open>None\<close> raises TypeError. The table maps a source word to its list
  of candidates.
\<close>

definition unk_word ::
  "(string \<rightharpoonup> string list) option \<Rightarrow> string list list option \<Rightarrow> nat \<Rightarrow>
   real list list option \<Rightarrow> nat \<Rightarrow> error + string" where
  "unk_word ttable test_source_orig_tok sent_idx attention_history i =
     (case ttable of
        None \<Rightarrow> Inr ''_UNK''
      | Some tt \<Rightarrow>
          (case attention_history of
             None \<Rightarrow> Inl TypeError
           | Some ah \<Rightarrow>
               ebind (py_index ah (int i)) (\<lambda>attention_dist.
               ebind (np_argmax attention_dist) (\<lambda>attent_pos.
               (case test_source_orig_tok of
                  None \<Rightarrow> Inl TypeError
                | Some src \<Rightarrow>
                    ebind (py_index src (int sent_idx)) (\<lambda>src_row.
                    ebind (py_index src_row (int attent_pos)) (\<lambda>attent_source_word.
                    (case tt attent_source_word of
                       Some candidates \<Rightarrow> py_index candidates 0
                     | None \<Rightarrow> Inr attent_source_word))))))))"

text \<open>The loop over \<^verbatim>\<open>enumerate(word_idxs)\<close>, from position \<open>i\<close>; the result is \<^verbatim>\<open>words\<close>.\<close>

fun line_words ::
  "string list \<Rightarrow> (string \<rightharpoonup> string list) option \<Rightarrow> string list list option \<Rightarrow> nat \<Rightarrow>
   real list list option \<Rightarrow> nat \<Rightarrow> int list \<Rightarrow> error + string list" where
  "line_words d ttable src sent_idx ah i [] = Inr []"
| "line_words d ttable src sent_idx ah i (word_idx # rest) =
     (if word_idx = 2 then line_words d ttable src sent_idx ah (Suc i) rest
      else if word_idx = 3 then
        ebind (unk_word ttable src sent_idx ah i) (\<lambda>target_word.
        ebind (line_words d ttable src sent_idx ah (Suc i) rest) (\<lambda>words.
        Inr (target_word # words)))
      else
        ebind (py_index d word_idx) (\<lambda>target_word.
        ebind (line_words d ttable src sent_idx ah (Suc i) rest) (\<lambda>words.
        Inr (target_word # words))))"

text \<open>\<^verbatim>\<open>" ".join(words)\<close>\<close>

fun join_space :: "string list \<Rightarrow> string" where
  "join_space [] = []"
| "join_space [w] = w"
| "join_space (w # ws) = w @ '' '' @ join_space ws"

text \<open>
  A decoded line is \<^verbatim>\<open>None\<close> or the triple \<^verbatim>\<open>(word_idxs, score, attention_history)\<close>. The loop
  over \<^verbatim>\<open>lines\<close> carries \<^verbatim>\<open>sent_idx\<close>; the result lists the strings written to the
  destination file, one \<^verbatim>\<open>f.write\<close> each.
\<close>

type_synonym decoded_line = "int list \<times> real \<times> real list list option"

fun write_lines ::
  "string list \<Rightarrow> (string \<rightharpoonup> string list) option \<Rightarrow> string list list option \<Rightarrow> nat \<Rightarrow>
   decoded_line option list \<Rightarrow> error + string list" where
  "write_lines d ttable src sent_idx [] = Inr []"
| "write_lines d ttable src sent_idx (None # rest) =
     ebind (write_lines d ttable src sent_idx rest) (\<lambda>out. Inr ([CHR 0x0A] # out))"
| "write_lines d ttable src sent_idx (Some (word_idxs, score, attention_history) # rest) =
     ebind (line_words d ttable src sent_idx attention_history 0 word_idxs) (\<lambda>words.
     ebind (write_lines d ttable src (Suc sent_idx) rest) (\<lambda>out.
     Inr ((join_space words @ [CHR 0x0A]) # out)))"

text \<open>\<open>to_vocab_lines\<close> are the lines of the file at \<^verbatim>\<open>to_vocab_path\<close>, as iteration yields them.\<close>

definition ids_to_tokens ::
  "decoded_line option list \<Rightarrow> string list \<Rightarrow> (string \<rightharpoonup> string list) option \<Rightarrow>
   string list list option \<Rightarrow> error + string list" where
  "ids_to_tokens lines to_vocab_lines ttable test_source_orig_tok =
     (let d = map (strip_by is_space_str) to_vocab_lines
      in write_lines d ttable test_source_orig_tok 0 lines)"

section \<open>frequency and output_weight\<close>

text \<open>
  \<^verbatim>\<open>int(x)\<close> on an ASCII string: surrounding whitespace is dropped, then an optional sign
  and decimal digits, where single underscores may separate digits; anything else raises
  ValueError.
\<close>

fun no_double_underscore :: "string \<Rightarrow> bool" where
  "no_double_underscore (c # e # cs) =
     (\<not> (c = CHR ''_'' \<and> e = CHR ''_'') \<and> no_double_underscore (e # cs))"
| "no_double_underscore cs = True"

definition int_body_ok :: "string \<Rightarrow> bool" where
  "int_body_ok b =
     (b \<noteq> [] \<and> list_all (\<lambda>c. is_digit c \<or> c = CHR ''_'') b \<and>
      hd b \<noteq> CHR ''_'' \<and> last b \<noteq> CHR ''_'' \<and> no_double_underscore b)"

definition digit_value :: "char \<Rightarrow> int" where
  "digit_value c = int (of_char c) - 48"

definition decimal_value :: "string \<Rightarrow> int" where
  "decimal_value b = foldl (\<lambda>n c. 10 * n + digit_value c) 0 (filter is_digit b)"

definition py_int :: "string \<Rightarrow> error + int" where
  "py_int x =
     (let t = strip_by is_space_str x;
          neg = (t \<noteq> [] \<and> hd t = CHR ''-'');
          b = (if t \<noteq> [] \<and> (hd t = CHR ''-'' \<or> hd t = CHR ''+'') then tl t else t)
      in if int_body_ok b then Inr (if neg then - decimal_value b else decimal_value b)
         else Inl ValueError)"

text \<open>\<^verbatim>\<open>[int(x) for x in line.strip().split()]\<close>: the first token that fails raises.\<close>

fun int_list :: "string list \<Rightarrow> error + int list" where
  "int_list [] = Inr []"
| "int_list (x # xs) = ebind (py_int x) (\<lambda>n. ebind (int_list xs) (\<lambda>ns. Inr (n # ns)))"

definition line_ids :: "string \<Rightarrow> error + int list" where
  "line_ids line = int_list (split_by is_space_str (strip_by is_space_str line))"

text \<open>
  \<^verbatim>\<open>d[k] += 1\<close>, at a key that is present (key 2 is stored before the loop, every other key
  just before its increment), and the body of the loop over the ids of a line.
\<close>

definition dict_incr :: "(int \<times> nat) list \<Rightarrow> int \<Rightarrow> (int \<times> nat) list" where
  "dict_incr d k = AList.update k (dict_get d k 0 + 1) d"

definition count_id :: "(int \<times> nat) list \<Rightarrow> int \<Rightarrow> (int \<times> nat) list" where
  "count_id d word =
     dict_incr (case map_of d word of None \<Rightarrow> AList.update word 0 d | Some c \<Rightarrow> d) word"

fun frequency_loop :: "(int \<times> nat) list \<Rightarrow> string list \<Rightarrow> error + (int \<times> nat) list" where
  "frequency_loop d [] = Inr d"
| "frequency_loop d (line # rest) =
     ebind (line_ids line) (\<lambda>words.
       frequency_loop (foldl count_id (dict_incr d 2) words) rest)"

text \<open>\<open>train_lines\<close> are the lines of the file \<^verbatim>\<open>train_file\<close>, as iteration yields them.\<close>

definition frequency :: "string list \<Rightarrow> error + (int \<times> nat) list" where
  "frequency train_lines = frequency_loop [(2, 0)] train_lines"

text \<open>
  The loop of \<^verbatim>\<open>output_weight\<close> over \<^verbatim>\<open>sorted(freq)\<close>, each key with its count
  \<^verbatim>\<open>freq[i]\<close>. The float quotient \<^verbatim>\<open>s*1.0 / freq[i]\<close> is taken as the exact real quotient;
  Python raises ZeroDivisionError on a zero count. The result lists the pairs written to the
  weight file, one per line.
\<close>

fun weight_lines :: "nat \<Rightarrow> (int \<times> nat) list \<Rightarrow> error + (int \<times> real) list" where
  "weight_lines s [] = Inr []"
| "weight_lines s ((i, c) # rest) =
     (if c = 0 then Inl ZeroDivisionError
      else ebind (weight_lines s rest) (\<lambda>out. Inr ((i, real s / real c) # out)))"

definition output_weight :: "string list \<Rightarrow> error + (int \<times> real) list" where
  "output_weight train_lines =
     ebind (frequency train_lines) (\<lambda>freq.
       weight_lines (sum_list (map snd freq)) (sort_key fst freq))"

section \<open>check_rare_weights\<close>

text \<open>
  The bodies of the loops are written over numpy's floats. These are taken as exact reals
  together with the three special values of IEEE arithmetic: rounding, overflow and the
  sign of zero are left out, division by zero and the invalid operations are kept. numpy's
  scalar arithmetic does not raise on them.
\<close>

datatype npfloat = Fin real | PInf | NInf | NaN

fun np_add :: "npfloat \<Rightarrow> npfloat \<Rightarrow> npfloat" where
  "np_add (Fin a) (Fin b) = Fin (a + b)"
| "np_add NaN y = NaN"
| "np_add x NaN = NaN"
| "np_add PInf NInf = NaN"
| "np_add NInf PInf = NaN"
| "np_add PInf y = PInf"
| "np_add NInf y = NInf"
| "np_add (Fin a) y = y"

fun np_neg :: "npfloat \<Rightarrow> npfloat" where
  "np_neg (Fin a) = Fin (- a)"
| "np_neg PInf = NInf"
| "np_neg NInf = PInf"
| "np_neg NaN = NaN"

fun np_mul :: "npfloat \<Rightarrow> npfloat \<Rightarrow> npfloat" where
  "np_mul (Fin a) (Fin b) = Fin (a * b)"
| "np_mul NaN y = NaN"
| "np_mul x NaN = NaN"
| "np_mul (Fin a) y = (if a = 0 then NaN else if a > 0 then y else np_neg y)"
| "np_mul x (Fin b) = (if b = 0 then NaN else if b > 0 then x else np_neg x)"
| "np_mul PInf y = y"
| "np_mul NInf y = np_neg y"

fun np_div :: "npfloat \<Rightarrow> npfloat \<Rightarrow> npfloat" where
  "np_div (Fin a) (Fin b) =
     (if b \<noteq> 0 then Fin (a / b) else if a = 0 then NaN else if a > 0 then PInf else NInf)"
| "np_div NaN y = NaN"
| "np_div x NaN = NaN"
| "np_div (Fin a) y = Fin 0"
| "np_div x (Fin b) = (if b \<ge> 0 then x else np_neg x)"
| "np_div x y = NaN"

fun np_log :: "npfloat \<Rightarrow> npfloat" where
  "np_log (Fin a) = (if a > 0 then Fin (ln a) else if a = 0 then NInf else NaN)"
| "np_log PInf = PInf"
| "np_log NInf = NaN"
| "np_log NaN = NaN"

definition is_odd_integer :: "real \<Rightarrow> bool" where
  "is_odd_integer y = (y = of_int \<lfloor>y\<rfloor> \<and> odd \<lfloor>y\<rfloor>)"

fun np_power :: "npfloat \<Rightarrow> npfloat \<Rightarrow> npfloat" where
  "np_power x (Fin y) =
     (if y = 0 then Fin 1
      else case x of
        NaN \<Rightarrow> NaN
      | PInf \<Rightarrow> (if y < 0 then Fin 0 else PInf)
      | NInf \<Rightarrow> (if y < 0 then Fin 0 else if is_odd_integer y then NInf else PInf)
      | Fin a \<Rightarrow>
          (if a = 0 then (if y < 0 then PInf else Fin 0)
           else if a > 0 then Fin (a powr y)
           else if y \<noteq> of_int \<lfloor>y\<rfloor> then NaN
           else if odd \<lfloor>y\<rfloor> then Fin (- ((- a) powr y))
           else Fin ((- a) powr y)))"
| "np_power x NaN = (if x = Fin 1 then Fin 1 else NaN)"
| "np_power x PInf =
     (case x of
        NaN \<Rightarrow> NaN
      | Fin a \<Rightarrow> (if \<bar>a\<bar> = 1 then Fin 1 else if \<bar>a\<bar> < 1 then Fin 0 else PInf)
      | _ \<Rightarrow> PInf)"
| "np_power x NInf =
     (case x of
        NaN \<Rightarrow> NaN
      | Fin a \<Rightarrow> (if \<bar>a\<bar> = 1 then Fin 1 else if \<bar>a\<bar> < 1 then PInf else Fin 0)
      | _ \<Rightarrow> Fin 0)"

text \<open>
  The weight table is a dict from ids to floats; only membership and lookup are used, so it
  is a map. \<open>raw_weight\<close> is the power that both loops over a row compute for a known id.
\<close>

definition raw_weight :: "bool \<Rightarrow> npfloat \<Rightarrow> npfloat \<Rightarrow> npfloat" where
  "raw_weight log_weight alpha v =
     (if log_weight then np_power (np_log v) alpha else np_power v alpha)"

text \<open>The first loop over the columns of a row: the sum \<^verbatim>\<open>s\<close> and the count \<^verbatim>\<open>ns\<close>.\<close>

definition row_stats ::
  "(int \<rightharpoonup> npfloat) \<Rightarrow> npfloat \<Rightarrow> bool \<Rightarrow> int list \<Rightarrow> npfloat \<times> nat" where
  "row_stats vocab_weights alpha log_weight row =
     foldl (\<lambda>(s, ns) w.
              case vocab_weights w of
                Some v \<Rightarrow> (np_add s (raw_weight log_weight alpha v), ns + 1)
              | None \<Rightarrow> (s, ns))
       (Fin 0, 0) row"

text \<open>The second loop: a column keeps the 0 of \<^verbatim>\<open>np.zeros_like\<close> unless its id is known.\<close>

definition row_weights ::
  "(int \<rightharpoonup> npfloat) \<Rightarrow> npfloat \<Rightarrow> bool \<Rightarrow> int list \<Rightarrow> npfloat list" where
  "row_weights vocab_weights alpha log_weight row =
     (let (s, ns) = row_stats vocab_weights alpha log_weight row
      in map (\<lambda>w. case vocab_weights w of
                      Some v \<Rightarrow> np_mul (np_div (raw_weight log_weight alpha v) s) (Fin (real ns))
                    | None \<Rightarrow> Fin 0) row)"

text \<open>Line 490: the exponent after decay; \<^verbatim>\<open>alpha\<close> and \<^verbatim>\<open>alpha_decay\<close> are floats.\<close>

definition effective_alpha :: "npfloat \<Rightarrow> npfloat \<Rightarrow> int \<Rightarrow> npfloat" where
  "effective_alpha alpha alpha_decay n_decay =
     np_mul (np_power alpha_decay (Fin (of_int n_decay))) alpha"

text \<open>
  \<open>target_outputs\<close> is a nested list of ids. Lines 490 to 493 compute the exponent and the
  zero matrix and unpack its shape: the unpacking raises ValueError unless the list is a
  matrix, that is, has a row and rows of one length. Line 494 then evaluates \<^verbatim>\<open>xrange(m)\<close>,
  an unbound name: the call raises NameError, and the two loops over the columns of a row,
  whose bodies are \<open>row_stats\<close> and \<open>row_weights\<close>, are never reached.
\<close>

definition check_rare_weights ::
  "int list list \<Rightarrow> (int \<rightharpoonup> npfloat) \<Rightarrow> npfloat \<Rightarrow> bool \<Rightarrow> npfloat \<Rightarrow> int \<Rightarrow>
   error + npfloat list list" where
  "check_rare_weights target_outputs vocab_weights alpha log_weight alpha_decay n_decay =
     (if target_outputs \<noteq> [] \<and>
         list_all (\<lambda>row. length row = length (hd target_outputs)) target_outputs
      then Inl NameError
      else Inl ValueError)"

section \<open>Notions used to state the properties\<close>

text \<open>
  The token stream of a corpus: the tokens of its lines in reading order, each normalized
  as \<^verbatim>\<open>create_vocabulary\<close> does before counting. The corpus count of a token is
  \<open>count_list\<close> on this stream, \<open>first_seen\<close> the position of its first occurrence.
\<close>

definition norm_word :: "bool \<Rightarrow> string \<Rightarrow> string" where
  "norm_word normalize_digits w = (if normalize_digits then digit_sub w else w)"

definition corpus_tokens :: "(string \<Rightarrow> string list) option \<Rightarrow> bool \<Rightarrow> string \<Rightarrow> string list" where
  "corpus_tokens tokenizer normalize_digits data =
     concat (map (\<lambda>line. map (norm_word normalize_digits) (tokenize tokenizer line)) (readlines data))"

definition first_seen :: "'a list \<Rightarrow> 'a \<Rightarrow> nat" where
  "first_seen ts w = length (takeWhile (\<lambda>t. t \<noteq> w) ts)"

definition ranked_before :: "string list \<Rightarrow> string \<Rightarrow> string \<Rightarrow> bool" where
  "ranked_before ts a b =
     (count_list ts a > count_list ts b \<or>
      (count_list ts a = count_list ts b \<and> first_seen ts a < first_seen ts b))"

definition count_tok :: "(string \<times> nat) list \<Rightarrow> string \<Rightarrow> (string \<times> nat) list" where
  "count_tok vocab word =
     AList.update word (case map_of vocab word of Some c \<Rightarrow> c + 1 | None \<Rightarrow> 1) vocab"

text \<open>
  A token-to-id dict and an id-to-token list are exact inverses when every index of the
  list is the id of its token, and every token of the dict stands in the list at its id.
\<close>

definition exact_inverses :: "(string \<times> int) list \<Rightarrow> string list \<Rightarrow> bool" where
  "exact_inverses vocab rev_vocab =
     ((\<forall>i < length rev_vocab. map_of vocab (rev_vocab ! i) = Some (int i)) \<and>
      (\<forall>w i. map_of vocab w = Some i \<longrightarrow> 0 \<le> i \<and> nat i < length rev_vocab \<and> rev_vocab ! nat i = w))"


text \<open>The number of lines before line \<open>k\<close> that are not \<^verbatim>\<open>None\<close>.\<close>

definition lines_before :: "'a option list \<Rightarrow> nat \<Rightarrow> nat" where
  "lines_before lines k = length (filter (\<lambda>l. l \<noteq> None) (take k lines))"

text \<open>
  The ids of an encoded corpus, line by line; the count of an id, with one more for id 2
  on every line; the total of all counts.
\<close>

fun corpus_ids :: "string list \<Rightarrow> error + int list list" where
  "corpus_ids [] = Inr []"
| "corpus_ids (line # rest) =
     ebind (line_ids line) (\<lambda>ids. ebind (corpus_ids rest) (\<lambda>idss. Inr (ids # idss)))"

definition id_count :: "int list list \<Rightarrow> int \<Rightarrow> nat" where
  "id_count idss i = count_list (concat idss) i + (if i = 2 then length idss else 0)"

definition total_count :: "int list list \<Rightarrow> nat" where
  "total_count idss = length (concat idss) + length idss"

text \<open>
  The sum of floats, added left to right from 0 as the first loop of a row does; the raw
  weights of the known columns of a row; the output weights at the known columns.
\<close>

definition np_sum :: "npfloat list \<Rightarrow> npfloat" where
  "np_sum xs = foldl np_add (Fin 0) xs"

definition known_raw ::
  "(int \<rightharpoonup> npfloat) \<Rightarrow> npfloat \<Rightarrow> bool \<Rightarrow> int list \<Rightarrow> npfloat list" where
  "known_raw vocab_weights alpha log_weight row =
     List.map_filter (\<lambda>w. map_option (raw_weight log_weight alpha) (vocab_weights w)) row"

definition known_columns :: "(int \<rightharpoonup> npfloat) \<Rightarrow> int list \<Rightarrow> 'a list \<Rightarrow> 'a list" where
  "known_columns vocab_weights row out =
     map snd (filter (\<lambda>p. vocab_weights (fst p) \<noteq> None) (zip row out))"

definition is_finite :: "npfloat \<Rightarrow> bool" where
  "is_finite x = (case x of Fin a \<Rightarrow> True | _ \<Rightarrow> False)"

text \<open>The string written for a decoded line that is not \<^verbatim>\<open>None\<close>, at a given \<^verbatim>\<open>sent_idx\<close>.\<close>

definition decoded_text ::
  "string list \<Rightarrow> (string \<rightharpoonup> string list) option \<Rightarrow> string list list option \<Rightarrow> nat \<Rightarrow>
   decoded_line \<Rightarrow> error + string" where
  "decoded_text d ttable src sent_idx line =
     (case line of (word_idxs, score, attention_history) \<Rightarrow>
        ebind (line_words d ttable src sent_idx attention_history 0 word_idxs) (\<lambda>words.
        Inr (join_space words @ [CHR 0x0A])))"

text \<open>A string without a whitespace byte; every token of \<^verbatim>\<open>basic_tokenizer\<close> is one.\<close>

definition clean :: "string \<Rightarrow> bool" where
  "clean w = (\<forall>c \<in> set w. \<not> is_space c)"

text \<open>
  The number of maximal runs of characters that are not whitespace; \<open>inside\<close> tells whether
  the character before was in such a run. The key looked up for a token.
\<close>

fun count_runs :: "(char \<Rightarrow> bool) \<Rightarrow> bool \<Rightarrow> string \<Rightarrow> nat" where
  "count_runs sp inside [] = 0"
| "count_runs sp inside (c # cs) =
     (if sp c then count_runs sp False cs
      else (if inside then 0 else 1) + count_runs sp True cs)"

definition is_bytes :: "pystr \<Rightarrow> bool" where
  "is_bytes w = (case w of Bytes b \<Rightarrow> True | Str t \<Rightarrow> False)"

definition lookup_key :: "bool \<Rightarrow> pystr \<Rightarrow> pystr" where
  "lookup_key normalize_digits w =
     (case w of
        Bytes b \<Rightarrow> Bytes (if normalize_digits then digit_sub b else b)
      | Str t \<Rightarrow> Str t)"

section \<open>Sequencing\<close>

lemma ebind_Inl [simp]: "ebind (Inl e) f = Inl e"
  by (simp add: ebind_def)

lemma ebind_Inr [simp]: "ebind (Inr x) f = f x"
  by (simp add: ebind_def)

lemma ebind_eq_Inr: "ebind r f = Inr y \<longleftrightarrow> (\<exists>x. r = Inr x \<and> f x = Inr y)"
  by (cases r) simp_all

section \<open>The counting loop of create_vocabulary\<close>

lemma count_word_tok: "count_word nd vocab w = count_tok vocab (norm_word nd w)"
  by (simp add: count_word_def count_tok_def norm_word_def Let_def split: option.splits)

lemma foldl_count_word: "foldl (count_word nd) v ws = foldl count_tok v (map (norm_word nd) ws)"
  by (induction ws arbitrary: v) (simp_all add: count_word_tok)

lemma foldl_count_line:
  "foldl (count_line tok nd) v ls =
   foldl count_tok v (concat (map (\<lambda>line. map (norm_word nd) (tokenize tok line)) ls))"
  by (induction ls arbitrary: v) (simp_all add: count_line_def foldl_count_word)

lemma count_file_tokens: "count_file tok nd data = foldl count_tok [] (corpus_tokens tok nd data)"
  by (simp add: count_file_def corpus_tokens_def foldl_count_line)

lemma first_seen_snoc_old: "w \<in> set ts \<Longrightarrow> first_seen (ts @ [t]) w = first_seen ts w"
  by (simp add: first_seen_def takeWhile_append1) 

lemma first_seen_less: "w \<in> set ts \<Longrightarrow> first_seen ts w < length ts"
proof -
  assume a: "w \<in> set ts"
  have "length (takeWhile (\<lambda>t. t \<noteq> w) ts) \<le> length ts" by (rule length_takeWhile_le)
  moreover have "length (takeWhile (\<lambda>t. t \<noteq> w) ts) \<noteq> length ts"
  proof
    assume "length (takeWhile (\<lambda>t. t \<noteq> w) ts) = length ts"
    then have "takeWhile (\<lambda>t. t \<noteq> w) ts = ts"
      by (metis takeWhile_dropWhile_id append_eq_conv_conj take_all order_refl)
    then show False using a by (auto simp: takeWhile_eq_all_conv)
  qed
  ultimately show ?thesis by (simp add: first_seen_def)
qed

lemma first_seen_snoc_new: "t \<notin> set ts \<Longrightarrow> first_seen (ts @ [t]) t = length ts"
proof -
  assume "t \<notin> set ts"
  then have "takeWhile (\<lambda>x. x \<noteq> t) (ts @ [t]) = ts @ takeWhile (\<lambda>x. x \<noteq> t) [t]"
    by (intro takeWhile_append2) auto
  then show ?thesis by (simp add: first_seen_def)
qed

lemma count_tok_keys:
  "map fst (count_tok v w) = (if w \<in> fst ` set v then map fst v else map fst v @ [w])"
  by (simp add: count_tok_def update_keys)

lemma count_tok_map_of:
  "map_of (count_tok v w) = (map_of v)(w \<mapsto> (case map_of v w of Some c \<Rightarrow> c + 1 | None \<Rightarrow> 1))"
  by (simp add: count_tok_def update_conv')

lemma count_loop_inv:
  "let v = foldl count_tok [] ts in
     distinct (map fst v) \<and> set (map fst v) = set ts \<and>
     (\<forall>w. map_of v w = (if w \<in> set ts then Some (count_list ts w) else None)) \<and>
     sorted_wrt (\<lambda>a b. first_seen ts a < first_seen ts b) (map fst v)"
proof (induction ts rule: rev_induct)
  case Nil
  show ?case by simp
next
  case (snoc t ts)
  define v where "v = foldl count_tok [] ts"
  define v' where "v' = count_tok v t"
  from snoc have d: "distinct (map fst v)" and s: "set (map fst v) = set ts"
    and m: "\<And>w. map_of v w = (if w \<in> set ts then Some (count_list ts w) else None)"
    and o: "sorted_wrt (\<lambda>a b. first_seen ts a < first_seen ts b) (map fst v)"
    by (simp_all add: v_def Let_def)
  have same: "\<And>a. a \<in> set (map fst v) \<Longrightarrow> first_seen (ts @ [t]) a = first_seen ts a"
    using s by (simp add: first_seen_snoc_old del: set_map)
  have o': "sorted_wrt (\<lambda>a b. first_seen (ts @ [t]) a < first_seen (ts @ [t]) b) (map fst v)"
    using o same by (metis (no_types, lifting) sorted_wrt_mono_rel)
  have k: "map fst v' = (if t \<in> set ts then map fst v else map fst v @ [t])"
    using s by (simp add: v'_def count_tok_keys)
  have m': "\<And>w. map_of v' w = (if w \<in> set (ts @ [t]) then Some (count_list (ts @ [t]) w) else None)"
    by (simp add: v'_def count_tok_map_of m)
  have d': "distinct (map fst v')" using k d s by (simp del: set_map)
  have s': "set (map fst v') = set (ts @ [t])" using k s by (auto simp del: set_map)
  have new: "t \<notin> set ts \<Longrightarrow> \<forall>a \<in> set (map fst v). first_seen (ts @ [t]) a < first_seen (ts @ [t]) t"
    using s by (simp add: first_seen_snoc_old first_seen_snoc_new first_seen_less del: set_map)
  have o'': "sorted_wrt (\<lambda>a b. first_seen (ts @ [t]) a < first_seen (ts @ [t]) b) (map fst v')"
    using k o' new by (simp add: sorted_wrt_append del: set_map)
  have "foldl count_tok [] (ts @ [t]) = v'" by (simp add: v'_def v_def)
  then show ?case using d' s' m' o'' by (simp add: Let_def del: set_map set_append)
qed

lemma insort_key_order:
  fixes key :: "'a \<Rightarrow> 'k::linorder"
  assumes "sorted_wrt (\<lambda>a b. key a < key b \<or> (key a = key b \<and> P a b)) ys"
    and "\<forall>y \<in> set ys. P x y"
  shows "sorted_wrt (\<lambda>a b. key a < key b \<or> (key a = key b \<and> P a b)) (insort_key key x ys)"
  using assms
proof (induction ys)
  case Nil
  then show ?case by simp
next
  case (Cons y ys)
  show ?case
  proof (cases "key x \<le> key y")
    case True
    have "\<forall>z \<in> set (y # ys). key x < key z \<or> (key x = key z \<and> P x z)"
      using True Cons.prems by fastforce
    then show ?thesis using True Cons.prems(1) by simp
  next
    case False
    then have "key y < key x" by simp
    moreover have "sorted_wrt (\<lambda>a b. key a < key b \<or> (key a = key b \<and> P a b)) (insort_key key x ys)"
      using Cons by simp
    ultimately show ?thesis using False Cons.prems(1) by (auto simp: set_insort_key)
  qed
qed

lemma sort_key_order:
  fixes key :: "'a \<Rightarrow> 'k::linorder"
  assumes "sorted_wrt P xs"
  shows "sorted_wrt (\<lambda>a b. key a < key b \<or> (key a = key b \<and> P a b)) (sort_key key xs)"
  using assms
proof (induction xs)
  case Nil
  then show ?case by simp
next
  case (Cons x xs)
  then show ?case by (simp add: sort_key_simps insort_key_order)
qed

lemma sorted_by_count_ranked:
  fixes tok nd data
  defines "ts \<equiv> corpus_tokens tok nd data"
  defines "ks \<equiv> sorted_by_count (count_file tok nd data)"
  shows "distinct ks" and "set ks = set ts" and "sorted_wrt (ranked_before ts) ks"
proof -
  define v where "v = foldl count_tok [] ts"
  define ys where "ys = sort_key (\<lambda>p. - int (snd p)) v"
  have v: "count_file tok nd data = v" by (simp add: v_def ts_def count_file_tokens)
  have ks: "ks = map fst ys" by (simp add: ks_def ys_def v sorted_by_count_def)
  from count_loop_inv[of ts] have d: "distinct (map fst v)" and s: "set (map fst v) = set ts"
    and m: "\<And>w. map_of v w = (if w \<in> set ts then Some (count_list ts w) else None)"
    and o: "sorted_wrt (\<lambda>a b. first_seen ts a < first_seen ts b) (map fst v)"
    by (simp_all add: v_def Let_def)
  show "distinct ks" using d by (simp add: ks ys_def distinct_map)
  show "set ks = set ts" using s by (simp add: ks ys_def)
  have snd_count: "\<And>p. p \<in> set v \<Longrightarrow> snd p = count_list ts (fst p)"
  proof -
    fix p assume "p \<in> set v"
    then have "map_of v (fst p) = Some (snd p)" using d by simp
    then show "snd p = count_list ts (fst p)" using m[of "fst p"] by (simp split: if_splits)
  qed
  have "sorted_wrt (\<lambda>p q. first_seen ts (fst p) < first_seen ts (fst q)) v"
    using o by (simp add: sorted_wrt_map)
  then have "sorted_wrt (\<lambda>p q. - int (snd p) < - int (snd q) \<or>
      (- int (snd p) = - int (snd q) \<and> first_seen ts (fst p) < first_seen ts (fst q))) ys"
    unfolding ys_def by (rule sort_key_order)
  moreover have "\<And>p q. p \<in> set ys \<Longrightarrow> q \<in> set ys \<Longrightarrow>
      - int (snd p) < - int (snd q) \<or>
      (- int (snd p) = - int (snd q) \<and> first_seen ts (fst p) < first_seen ts (fst q)) \<Longrightarrow>
      ranked_before ts (fst p) (fst q)"
    using snd_count by (auto simp: ys_def ranked_before_def)
  ultimately have "sorted_wrt (\<lambda>p q. ranked_before ts (fst p) (fst q)) ys"
    by (rule sorted_wrt_mono_rel[rotated])
  then show "sorted_wrt (ranked_before ts) ks" by (simp add: ks sorted_wrt_map)
qed

lemma vocab_list_take:
  "\<exists>n. vocab_list data m tok nd = take n (START_VOCAB @ sorted_by_count (count_file tok nd data))"
proof (cases "int (length (START_VOCAB @ sorted_by_count (count_file tok nd data))) > m")
  case True
  then show ?thesis unfolding vocab_list_def Let_def py_slice_to_def by (simp only: if_True) (metis)
next
  case False
  then have "vocab_list data m tok nd = START_VOCAB @ sorted_by_count (count_file tok nd data)"
    by (simp add: vocab_list_def Let_def)
  then show ?thesis by (metis take_all order_refl)
qed

lemma vocab_list_ge4:
  "4 \<le> m \<Longrightarrow> vocab_list data m tok nd = take (nat m) (START_VOCAB @ sorted_by_count (count_file tok nd data))"
  by (simp add: vocab_list_def Let_def py_slice_to_def)

text \<open>
  Claim C6. For every corpus, tokenizer and digit flag, and every \<^verbatim>\<open>max_vocabulary_size\<close> of
  at least 4, the list that \<^verbatim>\<open>create_vocabulary\<close> writes has exactly
  \<open>min max_vocabulary_size (4 + number of distinct normalized corpus tokens)\<close> entries, its
  first four entries are \<^verbatim>\<open>_PAD\<close>, \<^verbatim>\<open>_GO\<close>, \<^verbatim>\<open>_EOS\<close>, \<^verbatim>\<open>_UNK\<close> in this order, and the file
  holds the entries one per line.
\<close>

theorem create_vocabulary_length:
  assumes "4 \<le> max_vocabulary_size"
  shows "length (vocab_list data max_vocabulary_size tokenizer normalize_digits) =
           min (nat max_vocabulary_size) (4 + card (set (corpus_tokens tokenizer normalize_digits data)))
         \<and> take 4 (vocab_list data max_vocabulary_size tokenizer normalize_digits) =
           [''_PAD'', ''_GO'', ''_EOS'', ''_UNK'']
         \<and> create_vocabulary data max_vocabulary_size tokenizer normalize_digits =
           concat (map (\<lambda>w. w @ [CHR 0x0A]) (vocab_list data max_vocabulary_size tokenizer normalize_digits))"
proof -
  have "length (sorted_by_count (count_file tokenizer normalize_digits data)) =
        card (set (corpus_tokens tokenizer normalize_digits data))"
    using sorted_by_count_ranked(1,2)[of tokenizer normalize_digits data]
    by (metis distinct_card)
  moreover have "length START_VOCAB = 4" by (simp add: START_VOCAB_def)
  ultimately show ?thesis using assms
    by (simp add: vocab_list_ge4 create_vocabulary_def min_def START_VOCAB_def)
qed

theorem create_vocabulary_length_witness:
  "(4::int) \<le> 5 \<and>
   vocab_list ''b a a c'' 5 None False = [''_PAD'', ''_GO'', ''_EOS'', ''_UNK'', ''a''] \<and>
   length (vocab_list ''b a a c'' 5 None False) =
     min (nat 5) (4 + card (set (corpus_tokens None False ''b a a c'')))"
proof -
  have h: "(4::int) \<le> 5" by simp
  have e: "vocab_list ''b a a c'' 5 None False = [''_PAD'', ''_GO'', ''_EOS'', ''_UNK'', ''a'']"
    by code_simp
  show ?thesis using h e create_vocabulary_length [OF h, of "''b a a c''" None False] by simp
qed

text \<open>
  Claim C7. In the list that \<^verbatim>\<open>create_vocabulary\<close> writes, take two entries at positions
  \<open>i\<close> and \<open>j\<close> after the four reserved ones. If the corpus count of the entry at \<open>i\<close> is
  greater than that of the entry at \<open>j\<close>, then \<open>i < j\<close>; if the counts are equal and the
  entry at \<open>i\<close> was first seen earlier in the token stream, then \<open>i < j\<close> as well.
\<close>

theorem create_vocabulary_ranking:
  fixes data max_vocabulary_size tokenizer normalize_digits
  defines "vl \<equiv> vocab_list data max_vocabulary_size tokenizer normalize_digits"
  defines "ts \<equiv> corpus_tokens tokenizer normalize_digits data"
  shows "\<forall>i j. 4 \<le> i \<and> i < length vl \<and> 4 \<le> j \<and> j < length vl \<longrightarrow>
           (count_list ts (vl ! i) > count_list ts (vl ! j) \<longrightarrow> i < j) \<and>
           (count_list ts (vl ! i) = count_list ts (vl ! j) \<and>
              first_seen ts (vl ! i) < first_seen ts (vl ! j) \<longrightarrow> i < j)"
proof (intro allI impI)
  fix i j
  assume b: "4 \<le> i \<and> i < length vl \<and> 4 \<le> j \<and> j < length vl"
  define ks where "ks = sorted_by_count (count_file tokenizer normalize_digits data)"
  obtain n where n: "vl = take n (START_VOCAB @ ks)"
    using vocab_list_take unfolding vl_def ks_def by blast
  have len: "length START_VOCAB = 4" by (simp add: START_VOCAB_def)
  have nth: "\<And>k. 4 \<le> k \<Longrightarrow> k < length vl \<Longrightarrow> vl ! k = ks ! (k - 4) \<and> k - 4 < length ks"
    using n len by (auto simp: nth_append)
  have srt: "sorted_wrt (ranked_before ts) ks"
    unfolding ks_def ts_def by (rule sorted_by_count_ranked(3))
  have lt: "\<And>a b. a < b \<Longrightarrow> b < length ks \<Longrightarrow> ranked_before ts (ks ! a) (ks ! b)"
    using srt by (simp add: sorted_wrt_iff_nth_less)
  have vi: "vl ! i = ks ! (i - 4)" "i - 4 < length ks" using nth b by simp_all
  have vj: "vl ! j = ks ! (j - 4)" "j - 4 < length ks" using nth b by simp_all
  have rev_rank: "j < i \<Longrightarrow> ranked_before ts (vl ! j) (vl ! i)"
  proof -
    assume "j < i"
    with b have "j - 4 < i - 4" by arith
    from lt[OF this vi(2)] show ?thesis by (simp add: vi vj)
  qed
  show "(count_list ts (vl ! i) > count_list ts (vl ! j) \<longrightarrow> i < j) \<and>
        (count_list ts (vl ! i) = count_list ts (vl ! j) \<and>
           first_seen ts (vl ! i) < first_seen ts (vl ! j) \<longrightarrow> i < j)"
  proof (cases "i < j")
    case True
    then show ?thesis by simp
  next
    case False
    show ?thesis
    proof (cases "i = j")
      case True
      then show ?thesis by simp
    next
      case neq: False
      with False have "j < i" by simp
      from rev_rank[OF this] show ?thesis by (auto simp: ranked_before_def)
    qed
  qed
qed

theorem create_vocabulary_ranking_witness:
  "vocab_list ''b a a\<newline>c b d'' 10 None False =
     [''_PAD'', ''_GO'', ''_EOS'', ''_UNK'', ''b'', ''a'', ''c'', ''d''] \<and>
   count_list (corpus_tokens None False ''b a a\<newline>c b d'') ''a'' >
     count_list (corpus_tokens None False ''b a a\<newline>c b d'') ''c'' \<and>
   count_list (corpus_tokens None False ''b a a\<newline>c b d'') ''b'' =
     count_list (corpus_tokens None False ''b a a\<newline>c b d'') ''a'' \<and>
   first_seen (corpus_tokens None False ''b a a\<newline>c b d'') ''b'' <
     first_seen (corpus_tokens None False ''b a a\<newline>c b d'') ''a'' \<and>
   (5::nat) < 6 \<and> (4::nat) < 5"
proof -
  have e: "vocab_list ''b a a\<newline>c b d'' 10 None False =
     [''_PAD'', ''_GO'', ''_EOS'', ''_UNK'', ''b'', ''a'', ''c'', ''d'']"
    by code_simp
  have t: "corpus_tokens None False ''b a a\<newline>c b d'' = [''b'', ''a'', ''a'', ''c'', ''b'', ''d'']"
    by code_simp
  have c: "count_list [''b'', ''a'', ''a'', ''c'', ''b'', ''d''] ''a'' > count_list [''b'', ''a'', ''a'', ''c'', ''b'', ''d''] ''c''"
    by simp
  show ?thesis
    using create_vocabulary_ranking [of "''b a a\<newline>c b d''" 10 None False, THEN spec, of 5, THEN spec, of 6]
          create_vocabulary_ranking [of "''b a a\<newline>c b d''" 10 None False, THEN spec, of 4, THEN spec, of 5]
    by (simp add: e t first_seen_def)
qed

section \<open>Encoding\<close>

lemma split_acc_length:
  "length (split_acc sp cur s) = (if cur = [] then 0 else 1) + count_runs sp (cur \<noteq> []) s"
  by (induction s arbitrary: cur) auto

lemma split_acc_concat:
  "concat (split_acc sp cur s) = cur @ filter (\<lambda>c. \<not> sp c) s"
  by (induction s arbitrary: cur) auto

lemma count_runs_dropWhile: "count_runs sp False (dropWhile sp s) = count_runs sp False s"
  by (induction s) auto

lemma count_runs_trailing:
  "\<forall>c \<in> set ys. sp c \<Longrightarrow> count_runs sp b (xs @ ys) = count_runs sp b xs"
proof (induction xs arbitrary: b)
  case Nil
  then show ?case by (induction ys arbitrary: b) auto
next
  case (Cons x xs)
  then show ?case by auto
qed

lemma rev_dropWhile_rev: "rev (dropWhile sp (rev t)) @ rev (takeWhile sp (rev t)) = t"
proof -
  have "rev (takeWhile sp (rev t) @ dropWhile sp (rev t)) = t" by simp
  then show ?thesis by (simp only: rev_append)
qed

lemma count_runs_strip: "count_runs sp False (strip_by sp s) = count_runs sp False s"
proof -
  define t where "t = dropWhile sp s"
  have "\<forall>c \<in> set (rev (takeWhile sp (rev t))). sp c"
    by (auto dest: set_takeWhileD)
  then have "count_runs sp False (rev (dropWhile sp (rev t)) @ rev (takeWhile sp (rev t))) =
             count_runs sp False (rev (dropWhile sp (rev t)))"
    by (rule count_runs_trailing)
  then have "count_runs sp False (rev (dropWhile sp (rev t))) = count_runs sp False t"
    by (simp only: rev_dropWhile_rev)
  then show ?thesis by (simp add: strip_by_def t_def count_runs_dropWhile)
qed

lemma filter_strip: "filter (\<lambda>c. \<not> sp c) (strip_by sp s) = filter (\<lambda>c. \<not> sp c) s"
proof -
  have d: "\<And>u. filter (\<lambda>c. \<not> sp c) (dropWhile sp u) = filter (\<lambda>c. \<not> sp c) u"
    by (induct_tac u) auto
  have "filter (\<lambda>c. \<not> sp c) (rev (dropWhile sp (rev (dropWhile sp s)))) =
        rev (filter (\<lambda>c. \<not> sp c) (dropWhile sp (rev (dropWhile sp s))))"
    by (simp only: rev_filter)
  also have "\<dots> = rev (filter (\<lambda>c. \<not> sp c) (rev (dropWhile sp s)))" by (simp only: d)
  also have "\<dots> = filter (\<lambda>c. \<not> sp c) (dropWhile sp s)" by (simp add: rev_filter)
  also have "\<dots> = filter (\<lambda>c. \<not> sp c) s" by (simp only: d)
  finally show ?thesis by (simp only: strip_by_def)
qed

lemma basic_tokenizer_length: "length (basic_tokenizer s) = count_runs is_space False s"
  by (simp add: basic_tokenizer_def split_by_def split_acc_length count_runs_strip)

lemma basic_tokenizer_concat: "concat (basic_tokenizer s) = filter (\<lambda>c. \<not> is_space c) s"
  by (simp add: basic_tokenizer_def split_by_def split_acc_concat filter_strip)

lemma is_bytes_simps [simp]: "is_bytes (Bytes b)" "\<not> is_bytes (Str t)"
  by (simp_all add: is_bytes_def)

lemma normalized_ids_bytes:
  "list_all is_bytes ws \<Longrightarrow>
   normalized_ids vocabulary ws = Inr (map (\<lambda>w. dict_get vocabulary (lookup_key True w) UNK_ID) ws)"
proof (induction ws)
  case Nil
  show ?case by simp
next
  case (Cons w ws)
  then obtain b where "w = Bytes b" by (cases w) simp_all
  then show ?case using Cons by (simp add: digit_re_sub_def lookup_key_def)
qed

lemma normalized_ids_str:
  "\<not> list_all is_bytes ws \<Longrightarrow> normalized_ids vocabulary ws = Inl TypeError"
proof (induction ws)
  case Nil
  then show ?case by simp
next
  case (Cons w ws)
  show ?case
  proof (cases w)
    case (Bytes b)
    then have "\<not> list_all is_bytes ws" using Cons.prems by simp
    then have "normalized_ids vocabulary ws = Inl TypeError" by (rule Cons.IH)
    then show ?thesis using Bytes by (simp add: digit_re_sub_def)
  next
    case (Str t)
    then show ?thesis by (simp add: digit_re_sub_def)
  qed
qed

lemma basic_tokenizer_any_bytes: "list_all is_bytes (basic_tokenizer_any (Bytes b))"
  by (simp add: basic_tokenizer_any_def list_all_iff)

text \<open>
  Claim C8, as stated: for every input line and every vocabulary, \<^verbatim>\<open>sentence_to_token_ids\<close>
  never fails. On the \<^verbatim>\<open>str\<close> line \<^verbatim>\<open>a1\<close> with digit normalization the bytes pattern is
  applied to a \<^verbatim>\<open>str\<close> token, and the call raises TypeError.
\<close>

theorem sentence_to_token_ids_str_counterexample:
  "sentence_to_token_ids (Str ''a1'') [(Str ''a0'', 5)] None True = Inl TypeError"
  by code_simp

text \<open>
  Claim C8, amended. On a line in bytes format, the documented one, with the default
  tokenizer, \<^verbatim>\<open>sentence_to_token_ids\<close> never fails, for every vocabulary and either digit
  flag: it returns as many ids as the tokenizer gives tokens, which is the number of
  maximal runs of bytes that are not whitespace (the tokens, joined, are the line without
  its whitespace), and at every token whose key, after the optional digit normalization, is
  not in the vocabulary the id is \<^verbatim>\<open>UNK_ID\<close>, which is 3. The same holds for any line and any
  tokenizer that returns, provided that digit normalization is off or all tokens are
  bytes. With digit normalization on and a token that is a \<^verbatim>\<open>str\<close>, as every token of a
  \<^verbatim>\<open>str\<close> line is under the default tokenizer, the call raises TypeError; an exception of
  the tokenizer is passed on.
\<close>

theorem sentence_to_token_ids_total:
  "(\<exists>ids. sentence_to_token_ids (Bytes b) vocabulary None normalize_digits = Inr ids \<and>
      length ids = length (basic_tokenizer b) \<and>
      length ids = count_runs is_space False b \<and>
      concat (basic_tokenizer b) = filter (\<lambda>c. \<not> is_space c) b \<and>
      (\<forall>i < length ids.
         map_of vocabulary (Bytes (norm_word normalize_digits (basic_tokenizer b ! i))) = None \<longrightarrow>
         ids ! i = UNK_ID)) \<and>
   (tokenize_any tokenizer sentence = Inr ws \<and> (normalize_digits \<longrightarrow> list_all is_bytes ws) \<longrightarrow>
      (\<exists>ids. sentence_to_token_ids sentence vocabulary tokenizer normalize_digits = Inr ids \<and>
         length ids = length ws \<and>
         (\<forall>i < length ws.
            map_of vocabulary (lookup_key normalize_digits (ws ! i)) = None \<longrightarrow> ids ! i = UNK_ID))) \<and>
   (tokenize_any tokenizer sentence = Inr ws \<and> normalize_digits \<and> \<not> list_all is_bytes ws \<longrightarrow>
      sentence_to_token_ids sentence vocabulary tokenizer normalize_digits = Inl TypeError) \<and>
   (tokenize_any tokenizer sentence = Inl e \<longrightarrow>
      sentence_to_token_ids sentence vocabulary tokenizer normalize_digits = Inl e) \<and>
   UNK_ID = 3 \<and>
   sentence_to_token_ids (Bytes ''I have a dog'')
     [(Bytes ''I'', 1), (Bytes ''have'', 2), (Bytes ''a'', 4), (Bytes ''dog'', 7)] None False
     = Inr [1, 2, 4, 7]"
proof -
  have general: "\<And>sentence tokenizer ws normalize_digits.
    tokenize_any tokenizer sentence = Inr ws \<Longrightarrow> (normalize_digits \<longrightarrow> list_all is_bytes ws) \<Longrightarrow>
    sentence_to_token_ids sentence vocabulary tokenizer normalize_digits =
      Inr (map (\<lambda>w. dict_get vocabulary (lookup_key normalize_digits w) UNK_ID) ws)"
  proof -
    fix sentence tokenizer ws normalize_digits
    assume t: "tokenize_any tokenizer sentence = Inr ws"
      and b: "normalize_digits \<longrightarrow> list_all is_bytes ws"
    show "sentence_to_token_ids sentence vocabulary tokenizer normalize_digits =
      Inr (map (\<lambda>w. dict_get vocabulary (lookup_key normalize_digits w) UNK_ID) ws)"
    proof (cases normalize_digits)
      case True
      then show ?thesis using t b by (simp add: sentence_to_token_ids_def normalized_ids_bytes)
    next
      case False
      have "\<And>w. lookup_key False w = w" by (case_tac w) (simp_all add: lookup_key_def)
      then show ?thesis using t False by (simp add: sentence_to_token_ids_def)
    qed
  qed
  have p1: "\<exists>ids. sentence_to_token_ids (Bytes b) vocabulary None normalize_digits = Inr ids \<and>
      length ids = length (basic_tokenizer b) \<and>
      length ids = count_runs is_space False b \<and>
      concat (basic_tokenizer b) = filter (\<lambda>c. \<not> is_space c) b \<and>
      (\<forall>i < length ids.
         map_of vocabulary (Bytes (norm_word normalize_digits (basic_tokenizer b ! i))) = None \<longrightarrow>
         ids ! i = UNK_ID)"
  proof -
    have t: "tokenize_any None (Bytes b) = Inr (map Bytes (basic_tokenizer b))"
      by (simp add: tokenize_any_def basic_tokenizer_any_def)
    have a: "normalize_digits \<longrightarrow> list_all is_bytes (map Bytes (basic_tokenizer b))"
      by (simp add: list_all_iff)
    have k: "\<And>w. lookup_key normalize_digits (Bytes w) = Bytes (norm_word normalize_digits w)"
      by (simp add: lookup_key_def norm_word_def)
    have "sentence_to_token_ids (Bytes b) vocabulary None normalize_digits =
      Inr (map (\<lambda>w. dict_get vocabulary (Bytes (norm_word normalize_digits w)) UNK_ID)
             (basic_tokenizer b))"
      using general[OF t a] by (simp add: k comp_def)
    then show ?thesis
      by (simp add: basic_tokenizer_length basic_tokenizer_concat dict_get_def)
  qed
  have p2: "tokenize_any tokenizer sentence = Inr ws \<and> (normalize_digits \<longrightarrow> list_all is_bytes ws) \<longrightarrow>
      (\<exists>ids. sentence_to_token_ids sentence vocabulary tokenizer normalize_digits = Inr ids \<and>
         length ids = length ws \<and>
         (\<forall>i < length ws.
            map_of vocabulary (lookup_key normalize_digits (ws ! i)) = None \<longrightarrow> ids ! i = UNK_ID))"
    using general[of tokenizer sentence ws normalize_digits] by (simp add: dict_get_def)
  have p3: "tokenize_any tokenizer sentence = Inr ws \<and> normalize_digits \<and> \<not> list_all is_bytes ws \<longrightarrow>
      sentence_to_token_ids sentence vocabulary tokenizer normalize_digits = Inl TypeError"
    by (simp add: sentence_to_token_ids_def normalized_ids_str)
  have p4: "tokenize_any tokenizer sentence = Inl e \<longrightarrow>
      sentence_to_token_ids sentence vocabulary tokenizer normalize_digits = Inl e"
    by (simp add: sentence_to_token_ids_def)
  have p5: "UNK_ID = 3" by (simp add: UNK_ID_def)
  have p6: "sentence_to_token_ids (Bytes ''I have a dog'')
     [(Bytes ''I'', 1), (Bytes ''have'', 2), (Bytes ''a'', 4), (Bytes ''dog'', 7)] None False
     = Inr [1, 2, 4, 7]"
    by code_simp
  show ?thesis using p1 p2 p3 p4 p5 p6 by (intro conjI)
qed

theorem sentence_to_token_ids_total_witness:
  "tokenize_any None (Str ''a1 b'') = Inr [Str ''a1'', Str ''b''] \<and>
   \<not> list_all is_bytes [Str ''a1'', Str ''b''] \<and>
   sentence_to_token_ids (Str ''a1 b'') [(Str ''b'', 7)] None True = Inl TypeError \<and>
   sentence_to_token_ids (Str ''a1 b'') [(Str ''b'', 7)] None False = Inr [3, 7] \<and>
   sentence_to_token_ids (Bytes ''a1 b'') [(Bytes ''b'', 7)] None True = Inr [3, 7] \<and>
   map_of [(Bytes ''b'', 7 :: int)] (Bytes (norm_word True (basic_tokenizer ''a1 b'' ! 0))) = None \<and>
   count_runs is_space False ''a1 b'' = 2"
proof -
  have t: "tokenize_any None (Str ''a1 b'') = Inr [Str ''a1'', Str ''b'']" by code_simp
  have n: "\<not> list_all is_bytes [Str ''a1'', Str ''b'']" by simp
  have f: "\<not> True \<longrightarrow> list_all is_bytes [Str ''a1'', Str ''b'']" by simp
  have bt: "basic_tokenizer ''a1 b'' = [''a1'', ''b'']" by code_simp
  have e2: "sentence_to_token_ids (Str ''a1 b'') [(Str ''b'', 7)] None False = Inr [3, 7]"
    by code_simp
  have e3: "sentence_to_token_ids (Bytes ''a1 b'') [(Bytes ''b'', 7)] None True = Inr [3, 7]"
    by code_simp
  note inst = sentence_to_token_ids_total [where tokenizer = None and sentence = "Str ''a1 b''"
      and ws = "[Str ''a1'', Str ''b'']" and normalize_digits = True
      and vocabulary = "[(Str ''b'', 7)]" and b = "''a1 b''"]
  from inst[THEN conjunct2, THEN conjunct2, THEN conjunct1] t n
  have e1: "sentence_to_token_ids (Str ''a1 b'') [(Str ''b'', 7)] None True = Inl TypeError"
    by simp
  have c: "count_runs is_space False ''a1 b'' = 2" by code_simp
  show ?thesis using t n e1 e2 e3 c by (simp add: bt norm_word_def digit_sub_def is_digit_def)
qed

section \<open>Reconstruction: ids_to_tokens\<close>

lemma line_words_append:
  "line_words d tt src si ah i (pre @ post) =
     ebind (line_words d tt src si ah i pre) (\<lambda>a.
     ebind (line_words d tt src si ah (i + length pre) post) (\<lambda>b. Inr (a @ b)))"
proof (induction pre arbitrary: i)
  case Nil
  show ?case by (cases "line_words d tt src si ah i post") simp_all
next
  case (Cons x pre)
  show ?case
  proof (cases "x = 2")
    case True
    then show ?thesis using Cons[of "Suc i"] by simp
  next
    case False
    define w where "w = (if x = 3 then unk_word tt src si ah i else py_index d x)"
    have step: "\<And>ys. line_words d tt src si ah i (x # ys) =
        ebind w (\<lambda>t. ebind (line_words d tt src si ah (Suc i) ys) (\<lambda>ws. Inr (t # ws)))"
      using False by (simp add: w_def)
    show ?thesis
    proof (cases w)
      case (Inl e)
      then show ?thesis by (simp add: step del: line_words.simps)
    next
      case (Inr t)
      show ?thesis
      proof (cases "line_words d tt src si ah (Suc i) pre")
        case (Inl e)
        then show ?thesis using Inr Cons[of "Suc i"] by (simp add: step del: line_words.simps)
      next
        case a: (Inr a)
        show ?thesis
          using Inr a Cons[of "Suc i"]
          by (cases "line_words d tt src si ah (Suc (i + length pre)) post")
             (simp_all add: step del: line_words.simps)
      qed
    qed
  qed
qed


lemma line_words_no_table:
  "line_words d None src si ah i ids = line_words d None src' si' ah' j (filter (\<lambda>x. x \<noteq> 2) ids)"
proof (induction ids arbitrary: i j)
  case Nil
  show ?case by simp
next
  case (Cons x ids)
  show ?case using Cons[of "Suc i" "Suc j"] Cons[of "Suc i" j]
    by (simp add: unk_word_def)
qed

text \<open>
  Claim C1, as stated: at an id equal to \<^verbatim>\<open>EOS_ID\<close> the line is cut, so the ids
  \<open>[5, 7, EOS_ID, 9]\<close> give the line \<^verbatim>\<open>a b\<close>. The code executes \<^verbatim>\<open>continue\<close> there: the line
  written is \<^verbatim>\<open>a b c\<close>.
\<close>

theorem ids_to_tokens_eos_counterexample:
  "ids_to_tokens [Some ([5, 7, EOS_ID, 9], 0, None)]
     [''_PAD\<newline>'', ''_GO\<newline>'', ''_EOS\<newline>'', ''_UNK\<newline>'', ''the\<newline>'', ''a\<newline>'',
      ''of\<newline>'', ''b\<newline>'', ''and\<newline>'', ''c\<newline>''] None None = Inr [''a b c\<newline>''] \<and>
   ids_to_tokens [Some ([5, 7, EOS_ID, 9], 0, None)]
     [''_PAD\<newline>'', ''_GO\<newline>'', ''_EOS\<newline>'', ''_UNK\<newline>'', ''the\<newline>'', ''a\<newline>'',
      ''of\<newline>'', ''b\<newline>'', ''and\<newline>'', ''c\<newline>''] None None \<noteq> Inr [''a b\<newline>'']"
  by code_simp

text \<open>
  Claim C1, amended. A position whose id is \<^verbatim>\<open>EOS_ID\<close> emits no word and the positions
  after it are still processed, with their own indices into the attention history. Without
  a translation table the line written is the one of the ids with every \<^verbatim>\<open>EOS_ID\<close> removed;
  the ids \<open>[5, 7, EOS_ID, 9]\<close> give \<^verbatim>\<open>a b c\<close>.
\<close>

theorem ids_to_tokens_eos_skipped:
  "line_words d ttable src sent_idx ah i (pre @ EOS_ID # post) =
     ebind (line_words d ttable src sent_idx ah i pre) (\<lambda>a.
     ebind (line_words d ttable src sent_idx ah (Suc (i + length pre)) post) (\<lambda>b. Inr (a @ b))) \<and>
   ids_to_tokens [Some (ids, score, ah)] to_vocab_lines None src =
     ids_to_tokens [Some (filter (\<lambda>x. x \<noteq> EOS_ID) ids, score, ah)] to_vocab_lines None src \<and>
   ids_to_tokens [Some ([5, 7, EOS_ID, 9], 0, None)]
     [''_PAD\<newline>'', ''_GO\<newline>'', ''_EOS\<newline>'', ''_UNK\<newline>'', ''the\<newline>'', ''a\<newline>'',
      ''of\<newline>'', ''b\<newline>'', ''and\<newline>'', ''c\<newline>''] None None = Inr [''a b c\<newline>'']"
proof (intro conjI)
  have "line_words d ttable src sent_idx ah (i + length pre) (EOS_ID # post) =
        line_words d ttable src sent_idx ah (Suc (i + length pre)) post"
    by (simp add: EOS_ID_def)
  then show "line_words d ttable src sent_idx ah i (pre @ EOS_ID # post) =
     ebind (line_words d ttable src sent_idx ah i pre) (\<lambda>a.
     ebind (line_words d ttable src sent_idx ah (Suc (i + length pre)) post) (\<lambda>b. Inr (a @ b)))"
    using line_words_append[of d ttable src sent_idx ah i pre "EOS_ID # post"] by simp
next
  define d where "d = map (strip_by is_space_str) to_vocab_lines"
  have "line_words d None src 0 ah 0 ids =
        line_words d None src 0 ah 0 (filter (\<lambda>x. x \<noteq> 2) ids)"
    by (rule line_words_no_table)
  then show "ids_to_tokens [Some (ids, score, ah)] to_vocab_lines None src =
     ids_to_tokens [Some (filter (\<lambda>x. x \<noteq> EOS_ID) ids, score, ah)] to_vocab_lines None src"
    by (simp add: ids_to_tokens_def EOS_ID_def d_def)
next
  show "ids_to_tokens [Some ([5, 7, EOS_ID, 9], 0, None)]
     [''_PAD\<newline>'', ''_GO\<newline>'', ''_EOS\<newline>'', ''_UNK\<newline>'', ''the\<newline>'', ''a\<newline>'',
      ''of\<newline>'', ''b\<newline>'', ''and\<newline>'', ''c\<newline>''] None None = Inr [''a b c\<newline>'']"
    by code_simp
qed










lemma lines_before_0 [simp]: "lines_before ls 0 = 0"
  by (simp add: lines_before_def)

lemma lines_before_Suc [simp]:
  "lines_before (l # ls) (Suc k) = (if l = None then 0 else 1) + lines_before ls k"
  by (simp add: lines_before_def)

lemma write_lines_nth:
  "write_lines d tt src si lines = Inr out \<Longrightarrow>
   length out = length lines \<and>
   (\<forall>k < length lines.
      (lines ! k = None \<longrightarrow> out ! k = [CHR 0x0A]) \<and>
      (\<forall>l. lines ! k = Some l \<longrightarrow>
           decoded_text d tt src (si + lines_before lines k) l = Inr (out ! k)))"
proof (induction lines arbitrary: si out)
  case Nil
  then show ?case by simp
next
  case (Cons l lines)
  show ?case
  proof (cases l)
    case None
    with Cons.prems obtain out' where o: "write_lines d tt src si lines = Inr out'"
      and out: "out = [CHR 0x0A] # out'"
      by (auto simp: ebind_eq_Inr)
    from Cons.IH[OF o] show ?thesis
      by (auto simp: out None nth_Cons split: nat.splits)
  next
    case (Some t)
    obtain ids score ah where t: "t = (ids, score, ah)" by (cases t) auto
    with Cons.prems Some obtain ws out' where w: "line_words d tt src si ah 0 ids = Inr ws"
      and o: "write_lines d tt src (Suc si) lines = Inr out'"
      and out: "out = (join_space ws @ [CHR 0x0A]) # out'"
      by (auto simp: ebind_eq_Inr)
    have hd: "decoded_text d tt src si t = Inr (join_space ws @ [CHR 0x0A])"
      by (simp add: decoded_text_def t w)
    from Cons.IH[OF o] hd show ?thesis
      by (auto simp: out Some nth_Cons split: nat.splits)
  qed
qed

text \<open>
  Claim C10. When \<^verbatim>\<open>ids_to_tokens\<close> returns, it has written one string per input line. For
  a \<^verbatim>\<open>None\<close> line it is the empty line; for any other line it is the text decoded with
  \<^verbatim>\<open>sent_idx\<close> equal to the number of lines before it that are not \<^verbatim>\<open>None\<close>, so this is the
  row of the reversed source tokens that the substitution of unknown words consults, not
  the row at the position of the line in the input.
\<close>

theorem ids_to_tokens_sentence_index:
  "ids_to_tokens lines to_vocab_lines ttable src = Inr out \<Longrightarrow>
   length out = length lines \<and>
   (\<forall>k < length lines.
      (lines ! k = None \<longrightarrow> out ! k = [CHR 0x0A]) \<and>
      (\<forall>l. lines ! k = Some l \<longrightarrow>
           decoded_text (map (strip_by is_space_str) to_vocab_lines) ttable src
             (lines_before lines k) l = Inr (out ! k)))"
  using write_lines_nth[of "map (strip_by is_space_str) to_vocab_lines" ttable src 0 lines out]
  by (simp add: ids_to_tokens_def)

theorem ids_to_tokens_sentence_index_witness:
  "ids_to_tokens [None, Some ([UNK_ID], 0, Some [[1]])] [''_PAD\<newline>'', ''_GO\<newline>'', ''_EOS\<newline>'', ''_UNK\<newline>'']
     (Some Map.empty) (Some [[''x''], [''y'']]) = Inr [''\<newline>'', ''x\<newline>''] \<and>
   lines_before [None, Some ([UNK_ID], 0 :: real, Some [[1 :: real]])] 1 = 0 \<and>
   decoded_text (map (strip_by is_space_str) [''_PAD\<newline>'', ''_GO\<newline>'', ''_EOS\<newline>'', ''_UNK\<newline>''])
     (Some Map.empty) (Some [[''x''], [''y'']]) 0 ([UNK_ID], 0, Some [[1]]) = Inr ''x\<newline>'' \<and>
   decoded_text (map (strip_by is_space_str) [''_PAD\<newline>'', ''_GO\<newline>'', ''_EOS\<newline>'', ''_UNK\<newline>''])
     (Some Map.empty) (Some [[''x''], [''y'']]) 1 ([UNK_ID], 0, Some [[1]]) = Inr ''y\<newline>''"
proof -
  have e: "ids_to_tokens [None, Some ([UNK_ID], 0, Some [[1]])] [''_PAD\<newline>'', ''_GO\<newline>'', ''_EOS\<newline>'', ''_UNK\<newline>'']
     (Some Map.empty) (Some [[''x''], [''y'']]) = Inr [''\<newline>'', ''x\<newline>'']"
    by code_simp
  have b: "lines_before [None, Some ([UNK_ID], 0 :: real, Some [[1 :: real]])] 1 = 0"
    by (simp add: lines_before_def)
  have y: "decoded_text (map (strip_by is_space_str) [''_PAD\<newline>'', ''_GO\<newline>'', ''_EOS\<newline>'', ''_UNK\<newline>''])
     (Some Map.empty) (Some [[''x''], [''y'']]) 1 ([UNK_ID], 0, Some [[1]]) = Inr ''y\<newline>''"
    by code_simp
  show ?thesis
    using e b y ids_to_tokens_sentence_index [OF e, THEN conjunct2, THEN spec, of 1]
    by simp
qed

section \<open>Frequencies and weights\<close>

lemma frequency_loop_ids:
  "frequency_loop d train_lines =
     ebind (corpus_ids train_lines) (\<lambda>idss.
       Inr (foldl (\<lambda>d ids. foldl count_id (dict_incr d 2) ids) d idss))"
proof (induction train_lines arbitrary: d)
  case Nil
  show ?case by simp
next
  case (Cons line rest)
  show ?case
  proof (cases "line_ids line")
    case (Inl e)
    then show ?thesis by simp
  next
    case (Inr ids)
    then show ?thesis
      by (cases "corpus_ids rest") (simp_all add: Cons)
  qed
qed

lemma sum_snd_update:
  "sum_list (map snd (AList.update k v d)) + dict_get d k 0 = sum_list (map snd d) + (v::nat)"
  by (induction d) (auto simp: dict_get_def)

lemma dict_get_update:
  "dict_get (AList.update k v d) i dflt = (if i = k then v else dict_get d i dflt)"
  by (simp add: dict_get_def update_conv')

lemma dict_incr_get: "dict_get (dict_incr d k) i 0 = dict_get d i 0 + (if i = k then 1 else 0)"
  by (simp add: dict_incr_def dict_get_update)

lemma dict_incr_keys: "set (map fst (dict_incr d k)) = insert k (set (map fst d))"
  by (auto simp: dict_incr_def update_keys)

lemma dict_incr_distinct: "distinct (map fst d) \<Longrightarrow> distinct (map fst (dict_incr d k))"
  by (simp add: dict_incr_def distinct_update)

lemma dict_incr_sum: "sum_list (map snd (dict_incr d k)) = sum_list (map snd d) + 1"
  using sum_snd_update[of k "dict_get d k 0 + 1" d] by (simp add: dict_incr_def)

lemma count_id_get: "dict_get (count_id d w) i 0 = dict_get d i 0 + (if i = w then 1 else 0)"
  by (cases "map_of d w") (auto simp: count_id_def dict_incr_get dict_get_update, simp add: dict_get_def)

lemma count_id_keys: "set (map fst (count_id d w)) = insert w (set (map fst d))"
  by (cases "map_of d w") (auto simp: count_id_def dict_incr_keys update_keys simp del: set_map)

lemma count_id_distinct: "distinct (map fst d) \<Longrightarrow> distinct (map fst (count_id d w))"
  by (cases "map_of d w") (simp_all add: count_id_def dict_incr_distinct distinct_update)

lemma count_id_sum: "sum_list (map snd (count_id d w)) = sum_list (map snd d) + 1"
proof (cases "map_of d w")
  case None
  then have "sum_list (map snd (AList.update w 0 d)) = sum_list (map snd d)"
    using sum_snd_update[of w 0 d] by (simp add: dict_get_def)
  then show ?thesis using None by (simp add: count_id_def dict_incr_sum)
next
  case (Some c)
  then show ?thesis by (simp add: count_id_def dict_incr_sum)
qed

lemma count_ids:
  "dict_get (foldl count_id d ids) i 0 = dict_get d i 0 + count_list ids i \<and>
   set (map fst (foldl count_id d ids)) = set (map fst d) \<union> set ids \<and>
   (distinct (map fst d) \<longrightarrow> distinct (map fst (foldl count_id d ids))) \<and>
   sum_list (map snd (foldl count_id d ids)) = sum_list (map snd d) + length ids"
proof (induction ids arbitrary: d)
  case Nil
  show ?case by simp
next
  case (Cons w ids)
  show ?case
    using Cons[of "count_id d w"]
    by (auto simp: count_id_get count_id_keys count_id_distinct count_id_sum simp del: set_map)
qed

lemma count_lines:
  "dict_get (foldl (\<lambda>d ids. foldl count_id (dict_incr d 2) ids) d idss) i 0 =
     dict_get d i 0 + id_count idss i \<and>
   set (map fst (foldl (\<lambda>d ids. foldl count_id (dict_incr d 2) ids) d idss)) =
     set (map fst d) \<union> set (concat idss) \<union> (if idss = [] then {} else {2}) \<and>
   (distinct (map fst d) \<longrightarrow>
      distinct (map fst (foldl (\<lambda>d ids. foldl count_id (dict_incr d 2) ids) d idss))) \<and>
   sum_list (map snd (foldl (\<lambda>d ids. foldl count_id (dict_incr d 2) ids) d idss)) =
     sum_list (map snd d) + total_count idss"
proof (induction idss arbitrary: d)
  case Nil
  show ?case by (simp add: id_count_def total_count_def)
next
  case (Cons ids idss)
  define d1 where "d1 = foldl count_id (dict_incr d 2) ids"
  have g: "dict_get d1 i 0 = dict_get d i 0 + (if i = 2 then 1 else 0) + count_list ids i"
    and k: "set (map fst d1) = insert 2 (set (map fst d)) \<union> set ids"
    and di: "distinct (map fst d) \<longrightarrow> distinct (map fst d1)"
    and su: "sum_list (map snd d1) = sum_list (map snd d) + 1 + length ids"
    using count_ids[of "dict_incr d 2" ids i]
    by (simp_all add: d1_def dict_incr_get dict_incr_keys dict_incr_distinct dict_incr_sum del: set_map)
  have f: "foldl (\<lambda>d ids. foldl count_id (dict_incr d 2) ids) d (ids # idss) =
           foldl (\<lambda>d ids. foldl count_id (dict_incr d 2) ids) d1 idss"
    by (simp add: d1_def)
  show ?case
    unfolding f using Cons[of d1] g k di su
    by (auto simp: id_count_def total_count_def simp del: set_map)
qed

lemma corpus_ids_length: "corpus_ids train_lines = Inr idss \<Longrightarrow> length idss = length train_lines"
proof (induction train_lines arbitrary: idss)
  case Nil
  then show ?case by simp
next
  case (Cons line rest)
  then show ?case by (auto simp: ebind_eq_Inr)
qed

lemma weight_lines_ok:
  "\<forall>p \<in> set xs. snd p \<noteq> 0 \<Longrightarrow>
   weight_lines s xs = Inr (map (\<lambda>p. (fst p, real s / real (snd p))) xs)"
  by (induction xs) auto

lemma frequency_counts:
  assumes "corpus_ids train_lines = Inr idss"
  shows "\<exists>freq. frequency train_lines = Inr freq \<and> distinct (map fst freq) \<and>
           set (map fst freq) = insert 2 (set (concat idss)) \<and>
           (\<forall>p \<in> set freq. snd p = id_count idss (fst p)) \<and>
           sum_list (map snd freq) = total_count idss"
proof -
  define freq where "freq = foldl (\<lambda>d ids. foldl count_id (dict_incr d 2) ids) [(2, 0)] idss"
  have f: "frequency train_lines = Inr freq"
    by (simp add: frequency_def frequency_loop_ids assms freq_def)
  have g: "\<And>i. dict_get freq i 0 = id_count idss i"
    and k: "set (map fst freq) = insert 2 (set (concat idss))"
    and d: "distinct (map fst freq)"
    and su: "sum_list (map snd freq) = total_count idss"
    using count_lines[of "[(2, 0)]" idss]
    by (auto simp: freq_def dict_get_def simp del: set_map)
  have "\<forall>p \<in> set freq. snd p = id_count idss (fst p)"
  proof
    fix p assume "p \<in> set freq"
    then have "map_of freq (fst p) = Some (snd p)" using d by simp
    then show "snd p = id_count idss (fst p)" using g[of "fst p"] by (simp add: dict_get_def)
  qed
  then show ?thesis using f k d su by blast
qed

lemma id_count_le_total: "id_count idss i \<le> total_count idss"
  by (simp add: id_count_def total_count_def add_mono count_le_length)

lemma id_count_pos: "idss \<noteq> [] \<Longrightarrow> i \<in> insert 2 (set (concat idss)) \<Longrightarrow> 0 < id_count idss i"
proof -
  assume ne: "idss \<noteq> []" and i: "i \<in> insert 2 (set (concat idss))"
  show ?thesis
  proof (cases "i = 2")
    case True
    then show ?thesis using ne by (simp add: id_count_def)
  next
    case False
    with i have "i \<in> set (concat idss)" by simp
    then have "count_list (concat idss) i \<noteq> 0" by (simp only: count_list_0_iff not_not)
    then show ?thesis by (simp add: id_count_def)
  qed
qed

text \<open>
  Claim C4. Let the encoded corpus parse into the id lists \<open>idss\<close>, one per line. Then
  \<^verbatim>\<open>frequency\<close> returns a dict whose keys are id 2 and the ids of the corpus, where each id
  has its number of occurrences, plus one per line for id 2, and the counts add up to
  the number of ids plus the number of lines. If the corpus has at least one line,
  \<^verbatim>\<open>output_weight\<close> writes one pair per key, in ascending order of the ids, with the weight
  total / count; every weight is at least 1, and of two ids the one with the smaller count
  has the strictly larger weight. For the one-line corpus \<^verbatim>\<open>3 3 5\<close> the counts are 1 for id
  2, 2 for id 3, 1 for id 5, and the weights 4, 2 and 4. A corpus without lines has
  the single count 0 for id 2, and \<^verbatim>\<open>output_weight\<close> raises ZeroDivisionError on it.
\<close>

theorem frequency_weights:
  "(corpus_ids train_lines = Inr idss \<longrightarrow>
      (\<exists>freq. frequency train_lines = Inr freq \<and> distinct (map fst freq) \<and>
         set (map fst freq) = insert 2 (set (concat idss)) \<and>
         (\<forall>p \<in> set freq. snd p = id_count idss (fst p)) \<and>
         sum_list (map snd freq) = total_count idss)) \<and>
   (corpus_ids train_lines = Inr idss \<and> train_lines \<noteq> [] \<longrightarrow>
      (\<exists>ws. output_weight train_lines = Inr ws \<and>
         sorted (map fst ws) \<and> distinct (map fst ws) \<and>
         set (map fst ws) = insert 2 (set (concat idss)) \<and>
         (\<forall>p \<in> set ws. snd p = real (total_count idss) / real (id_count idss (fst p)) \<and>
                         1 \<le> snd p) \<and>
         (\<forall>p \<in> set ws. \<forall>q \<in> set ws.
            id_count idss (fst p) < id_count idss (fst q) \<longrightarrow> snd q < snd p))) \<and>
   frequency [''3 3 5\<newline>''] = Inr [(2, 1), (3, 2), (5, 1)] \<and>
   output_weight [''3 3 5\<newline>''] = Inr [(2, 4), (3, 2), (5, 4)] \<and>
   output_weight [] = Inl ZeroDivisionError"
proof (intro conjI impI)
  assume "corpus_ids train_lines = Inr idss"
  then show "\<exists>freq. frequency train_lines = Inr freq \<and> distinct (map fst freq) \<and>
         set (map fst freq) = insert 2 (set (concat idss)) \<and>
         (\<forall>p \<in> set freq. snd p = id_count idss (fst p)) \<and>
         sum_list (map snd freq) = total_count idss"
    by (rule frequency_counts)
next
  assume a: "corpus_ids train_lines = Inr idss \<and> train_lines \<noteq> []"
  then have ne: "idss \<noteq> []" using corpus_ids_length[of train_lines idss] by auto
  from a frequency_counts[of train_lines idss] obtain freq where
    f: "frequency train_lines = Inr freq" and d: "distinct (map fst freq)"
    and k: "set (map fst freq) = insert 2 (set (concat idss))"
    and c: "\<forall>p \<in> set freq. snd p = id_count idss (fst p)"
    and su: "sum_list (map snd freq) = total_count idss"
    by blast
  define T where "T = total_count idss"
  define xs where "xs = sort_key fst freq"
  define ws where "ws = map (\<lambda>p. (fst p, real T / real (snd p))) xs"
  have sx: "set xs = set freq" by (simp add: xs_def)
  have pos: "\<And>p. p \<in> set xs \<Longrightarrow> 0 < id_count idss (fst p)"
  proof -
    fix p assume "p \<in> set xs"
    then have "fst p \<in> set (map fst freq)" using sx by simp
    then show "0 < id_count idss (fst p)" using ne k id_count_pos by simp
  qed
  have nz: "\<forall>p \<in> set xs. snd p \<noteq> 0" using pos c sx by auto
  have ow: "output_weight train_lines = Inr ws"
    using weight_lines_ok[OF nz, of T]
    by (simp add: output_weight_def f su T_def xs_def ws_def)
  have keys: "map fst ws = map fst xs" by (simp add: ws_def comp_def)
  have s1: "sorted (map fst ws)" by (simp add: keys xs_def)
  have s2: "distinct (map fst ws)" using d by (simp add: keys xs_def distinct_map)
  have s3: "set (map fst ws) = insert 2 (set (concat idss))" using k by (simp add: keys xs_def)
  have wv: "\<And>p. p \<in> set ws \<Longrightarrow> snd p = real T / real (id_count idss (fst p)) \<and>
              0 < id_count idss (fst p)"
    using c sx pos by (auto simp: ws_def)
  have Tpos: "0 < T" using ne by (simp add: T_def total_count_def)
  have s4: "\<forall>p \<in> set ws. snd p = real T / real (id_count idss (fst p)) \<and> 1 \<le> snd p"
  proof
    fix p assume p: "p \<in> set ws"
    have "id_count idss (fst p) \<le> T" by (simp add: T_def id_count_le_total)
    then have "1 \<le> real T / real (id_count idss (fst p))" using wv[OF p] by simp
    then show "snd p = real T / real (id_count idss (fst p)) \<and> 1 \<le> snd p" using wv[OF p] by simp
  qed
  have s5: "\<forall>p \<in> set ws. \<forall>q \<in> set ws.
            id_count idss (fst p) < id_count idss (fst q) \<longrightarrow> snd q < snd p"
  proof (intro ballI impI)
    fix p q assume p: "p \<in> set ws" and q: "q \<in> set ws"
      and lt: "id_count idss (fst p) < id_count idss (fst q)"
    have "real T / real (id_count idss (fst q)) < real T / real (id_count idss (fst p))"
      using lt wv[OF p] Tpos by (intro divide_strict_left_mono) simp_all
    then show "snd q < snd p" using wv[OF p] wv[OF q] by simp
  qed
  show "\<exists>ws. output_weight train_lines = Inr ws \<and>
         sorted (map fst ws) \<and> distinct (map fst ws) \<and>
         set (map fst ws) = insert 2 (set (concat idss)) \<and>
         (\<forall>p \<in> set ws. snd p = real (total_count idss) / real (id_count idss (fst p)) \<and>
                         1 \<le> snd p) \<and>
         (\<forall>p \<in> set ws. \<forall>q \<in> set ws.
            id_count idss (fst p) < id_count idss (fst q) \<longrightarrow> snd q < snd p)"
    using ow s1 s2 s3 s4 s5 unfolding T_def by blast
next
  show "frequency [''3 3 5\<newline>''] = Inr [(2, 1), (3, 2), (5, 1)]" by code_simp
next
  show "output_weight [''3 3 5\<newline>''] = Inr [(2, 4), (3, 2), (5, 4)]" by code_simp
next
  show "output_weight [] = Inl ZeroDivisionError" by code_simp
qed

theorem frequency_weights_witness:
  "corpus_ids [''3 3 5\<newline>''] = Inr [[3, 3, 5]] \<and> [''3 3 5\<newline>''] \<noteq> ([] :: string list) \<and>
   id_count [[3, 3, 5]] 3 = 2 \<and> id_count [[3, 3, 5]] 5 = 1 \<and> id_count [[3, 3, 5]] 2 = 1 \<and>
   total_count [[3, 3, 5]] = 4 \<and>
   id_count [[3, 3, 5]] 5 < id_count [[3, 3, 5]] 3 \<and>
   (\<exists>ws. output_weight [''3 3 5\<newline>''] = Inr ws \<and> set (map fst ws) = {2, 3, 5})"
proof -
  have c: "corpus_ids [''3 3 5\<newline>''] = Inr [[3, 3, 5]]" by code_simp
  have n: "[''3 3 5\<newline>''] \<noteq> ([] :: string list)" by simp
  show ?thesis
    using c n frequency_weights [of "[''3 3 5\<newline>'']" "[[3, 3, 5]]"]
    by (auto simp: id_count_def total_count_def)
qed

section \<open>Reweighting: check_rare_weights\<close>

lemma known_raw_Cons:
  "known_raw vw a lw (w # row) =
     (case vw w of None \<Rightarrow> known_raw vw a lw row
      | Some v \<Rightarrow> raw_weight lw a v # known_raw vw a lw row)"
  by (simp add: known_raw_def map_filter_simps split: option.splits)

lemma known_raw_Nil [simp]: "known_raw vw a lw [] = []"
  by (simp add: known_raw_def map_filter_simps)

lemma row_stats_foldl:
  "foldl (\<lambda>(s, ns) w.
            case vw w of
              Some v \<Rightarrow> (np_add s (raw_weight lw a v), ns + 1)
            | None \<Rightarrow> (s, ns)) (s0, n0) row =
   (foldl np_add s0 (known_raw vw a lw row), n0 + length (known_raw vw a lw row))"
  by (induction row arbitrary: s0 n0) (simp_all add: known_raw_Cons split: option.splits)

lemma row_stats_known:
  "row_stats vw a lw row = (np_sum (known_raw vw a lw row), length (known_raw vw a lw row))"
  by (simp add: row_stats_def row_stats_foldl np_sum_def)

lemma length_known_raw:
  "length (known_raw vw a lw row) = length (filter (\<lambda>w. vw w \<noteq> None) row)"
  by (induction row) (simp_all add: known_raw_Cons split: option.splits)

lemma known_raw_member:
  "w \<in> set row \<Longrightarrow> vw w = Some v \<Longrightarrow> raw_weight lw a v \<in> set (known_raw vw a lw row)"
  by (induction row) (auto simp: known_raw_Cons split: option.splits)

lemma foldl_np_add_Fin:
  "foldl np_add x xs = Fin s \<Longrightarrow> \<exists>a rs. x = Fin a \<and> xs = map Fin rs \<and> s = a + sum_list rs"
proof (induction xs arbitrary: x)
  case Nil
  then show ?case by simp
next
  case (Cons y xs)
  from Cons.IH[OF Cons.prems[simplified]] obtain b rs where
    b: "np_add x y = Fin b" and xs: "xs = map Fin rs" and s: "s = b + sum_list rs"
    by auto
  from b have "\<exists>a r. x = Fin a \<and> y = Fin r \<and> b = a + r"
    by (cases x; cases y) auto
  then obtain a r where "x = Fin a" "y = Fin r" "b = a + r" by blast
  then have "x = Fin a \<and> y # xs = map Fin (r # rs) \<and> s = a + sum_list (r # rs)"
    using xs s by simp
  then show ?case by (intro exI[of _ a] exI[of _ "r # rs"])
qed

lemma foldl_np_add_map_Fin: "foldl np_add (Fin a) (map Fin rs) = Fin (a + sum_list rs)"
  by (induction rs arbitrary: a) (simp_all add: add.assoc)

lemma np_sum_map_Fin: "np_sum (map Fin rs) = Fin (sum_list rs)"
  by (simp add: np_sum_def foldl_np_add_map_Fin)

lemma np_sum_Fin: "np_sum xs = Fin s \<Longrightarrow> \<exists>rs. xs = map Fin rs \<and> s = sum_list rs"
  unfolding np_sum_def by (drule foldl_np_add_Fin) auto

lemma known_columns_map:
  "known_columns vw row (map (\<lambda>w. case vw w of Some v \<Rightarrow> h (raw_weight lw a v) | None \<Rightarrow> z) row) =
   map h (known_raw vw a lw row)"
  by (induction row) (simp_all add: known_columns_def known_raw_Cons split: option.splits)

lemma row_weights_known:
  "row_stats vw a lw row = (s, ns) \<Longrightarrow>
   row_weights vw a lw row =
     map (\<lambda>w. case vw w of Some v \<Rightarrow> np_mul (np_div (raw_weight lw a v) s) (Fin (real ns))
                | None \<Rightarrow> Fin 0) row"
  by (simp add: row_weights_def)

text \<open>
  The two loops over a row, as written: when the sum of the first loop is a number other
  than 0, the weights that the second loop assigns at the known columns add up to the
  number of known columns.
\<close>

lemma sum_list_scaled:
  fixes s :: real
  shows "s \<noteq> 0 \<Longrightarrow> sum_list (map (\<lambda>r. r / s * n) rs) = sum_list rs / s * n"
  by (induction rs) (simp_all add: field_simps)

lemma row_sum_known:
  assumes st: "row_stats vw a lw row = (Fin s, ns)" and nz: "s \<noteq> 0"
  shows "np_sum (known_columns vw row (row_weights vw a lw row)) = Fin (real ns)"
proof -
  from st have S: "np_sum (known_raw vw a lw row) = Fin s"
    and N: "ns = length (known_raw vw a lw row)"
    by (simp_all add: row_stats_known)
  from np_sum_Fin[OF S] obtain rs where rs: "known_raw vw a lw row = map Fin rs"
    and s: "s = sum_list rs" by blast
  have "known_columns vw row (row_weights vw a lw row) =
        map (\<lambda>x. np_mul (np_div x (Fin s)) (Fin (real ns))) (known_raw vw a lw row)"
    using known_columns_map[where vw = vw and row = row and lw = lw and a = a and z = "Fin 0"
            and h = "\<lambda>x. np_mul (np_div x (Fin s)) (Fin (real ns))"]
    by (simp only: row_weights_known[OF st])
  also have "\<dots> = map Fin (map (\<lambda>r. r / s * real ns) rs)"
    using nz by (simp add: rs)
  finally have "np_sum (known_columns vw row (row_weights vw a lw row)) =
                Fin (sum_list (map (\<lambda>r. r / s * real ns) rs))"
    by (simp only: np_sum_map_Fin)
  also have "sum_list (map (\<lambda>r. r / s * real ns) rs) = sum_list rs / s * real ns"
    using nz by (rule sum_list_scaled)
  also have "\<dots> = real ns" using nz s by simp
  finally show ?thesis .
qed

lemma np_div_zero_not_finite:
  "0 < n \<Longrightarrow> \<not> is_finite (np_mul (np_div (Fin r) (Fin 0)) (Fin n)) \<and>
     (r = 0 \<longrightarrow> np_mul (np_div (Fin r) (Fin 0)) (Fin n) = NaN)"
  by (simp add: is_finite_def)

text \<open>
  Claim C3: for a row with a known column and a nonzero sum, with \<^verbatim>\<open>log_weight = False\<close>, the
  output weights at the known columns add up to their number, and the other columns get 0.
  The call does not get that far. At the batch with the one row \<open>[7, 8, 9]\<close>, the table
  with weight 2 for id 7 and 4 for id 8, and exponent 1, it raises NameError at the first
  \<^verbatim>\<open>xrange\<close>; the loops it does not reach would give the sum 6 over 2 known columns and the
  weights 2/3, 4/3 and 0.
\<close>

theorem check_rare_weights_unbound_xrange:
  "check_rare_weights [[7, 8, 9]] [7 \<mapsto> Fin 2, 8 \<mapsto> Fin 4] (Fin 1) False (Fin 1) 0
     = Inl NameError \<and>
   row_stats [7 \<mapsto> Fin 2, 8 \<mapsto> Fin 4] (effective_alpha (Fin 1) (Fin 1) 0) False [7, 8, 9]
     = (Fin 6, 2) \<and>
   row_weights [7 \<mapsto> Fin 2, 8 \<mapsto> Fin 4] (effective_alpha (Fin 1) (Fin 1) 0) False [7, 8, 9]
     = [Fin (2/3), Fin (4/3), Fin 0]"
  by (simp add: check_rare_weights_def row_weights_def row_stats_def raw_weight_def
      effective_alpha_def)

text \<open>
  Claim C5, as stated: a row whose sum \<^verbatim>\<open>s\<close> is 0 while a known id is present is detected and
  handled by a policy, weight 0 at its known positions or an error raised for it. Nothing
  in the function answers the condition. The call on the one-column batch with id 7 of
  weight 1, with \<^verbatim>\<open>log_weight\<close> and exponent 1, where the sum is 0, ends as the call does
  where the weight is 2, without \<^verbatim>\<open>log_weight\<close>, and the sum is 2: in the NameError of the
  unbound \<^verbatim>\<open>xrange\<close>. And the assignment of the second loop has no test of the sum: at
  the row of sum 0 it evaluates 0 / 0 to NaN, not to 0.
\<close>

theorem reweight_zero_sum_counterexample:
  "check_rare_weights [[7]] [7 \<mapsto> Fin 1] (Fin 1) True (Fin 1) 0 = Inl NameError \<and>
   check_rare_weights [[7]] [7 \<mapsto> Fin 2] (Fin 1) False (Fin 1) 0 = Inl NameError \<and>
   row_stats [7 \<mapsto> Fin 1] (effective_alpha (Fin 1) (Fin 1) 0) True [7] = (Fin 0, 1) \<and>
   row_stats [7 \<mapsto> Fin 2] (effective_alpha (Fin 1) (Fin 1) 0) False [7] = (Fin 2, 1) \<and>
   row_weights [7 \<mapsto> Fin 1] (effective_alpha (Fin 1) (Fin 1) 0) True [7] = [NaN]"
  by (simp add: check_rare_weights_def row_weights_def row_stats_def raw_weight_def
      effective_alpha_def)

text \<open>
  Claim C5, amended. The loops of \<^verbatim>\<open>check_rare_weights\<close> neither detect a sum \<^verbatim>\<open>s\<close> of 0 nor
  handle it by a policy: for a row whose sum is 0, the assignment of the second loop gives
  a column with a known id its raw weight divided by 0 and multiplied by \<^verbatim>\<open>ns\<close>, which is
  never a finite number and is NaN when the raw weight is 0; a column with an unknown id
  keeps the 0 of the initial matrix.
\<close>

theorem reweight_zero_sum_unguarded:
  assumes "row_stats vocab_weights alpha log_weight row = (Fin 0, ns)"
    and "j < length row"
  shows "(vocab_weights (row ! j) = None \<longrightarrow>
            row_weights vocab_weights alpha log_weight row ! j = Fin 0) \<and>
         (\<forall>v. vocab_weights (row ! j) = Some v \<longrightarrow>
            row_weights vocab_weights alpha log_weight row ! j =
              np_mul (np_div (raw_weight log_weight alpha v) (Fin 0)) (Fin (real ns)) \<and>
            \<not> is_finite (row_weights vocab_weights alpha log_weight row ! j) \<and>
            (raw_weight log_weight alpha v = Fin 0 \<longrightarrow>
               row_weights vocab_weights alpha log_weight row ! j = NaN))"
proof -
  define out where "out = row_weights vocab_weights alpha log_weight row ! j"
  note st = assms(1)
  note j = assms(2)
  have o: "out = (case vocab_weights (row ! j) of
                    Some v \<Rightarrow> np_mul (np_div (raw_weight log_weight alpha v) (Fin 0)) (Fin (real ns))
                  | None \<Rightarrow> Fin 0)"
    using j by (simp add: out_def row_weights_known[OF st])
  have known: "\<And>v. vocab_weights (row ! j) = Some v \<Longrightarrow>
      out = np_mul (np_div (raw_weight log_weight alpha v) (Fin 0)) (Fin (real ns)) \<and>
      \<not> is_finite out \<and> (raw_weight log_weight alpha v = Fin 0 \<longrightarrow> out = NaN)"
  proof -
    fix v assume v: "vocab_weights (row ! j) = Some v"
    have mem: "raw_weight log_weight alpha v \<in> set (known_raw vocab_weights alpha log_weight row)"
      using j v by (intro known_raw_member) simp_all
    from st have S: "np_sum (known_raw vocab_weights alpha log_weight row) = Fin 0"
      and N: "ns = length (known_raw vocab_weights alpha log_weight row)"
      by (simp_all add: row_stats_known)
    from np_sum_Fin[OF S] obtain rs where
      rs: "known_raw vocab_weights alpha log_weight row = map Fin rs" by blast
    with mem obtain r where r: "raw_weight log_weight alpha v = Fin r" by auto
    have "0 < ns" using mem N by (cases "known_raw vocab_weights alpha log_weight row") auto
    then have "0 < real ns" by simp
    from np_div_zero_not_finite[OF this, of r] show
      "out = np_mul (np_div (raw_weight log_weight alpha v) (Fin 0)) (Fin (real ns)) \<and>
       \<not> is_finite out \<and> (raw_weight log_weight alpha v = Fin 0 \<longrightarrow> out = NaN)"
      using o v r by simp
  qed
  show ?thesis
    using o known unfolding out_def by (auto split: option.splits)
qed

theorem reweight_zero_sum_unguarded_witness:
  "row_stats [7 \<mapsto> Fin 1] (Fin 1) True [7, 9] = (Fin 0, 1) \<and>
   raw_weight True (Fin 1) (Fin 1) = Fin 0 \<and>
   row_weights [7 \<mapsto> Fin 1] (Fin 1) True [7, 9] ! 0 = NaN \<and>
   row_weights [7 \<mapsto> Fin 1] (Fin 1) True [7, 9] ! 1 = Fin 0"
proof -
  have st: "row_stats [7 \<mapsto> Fin 1] (Fin 1) True [7, 9] = (Fin 0, 1)"
    by (simp add: row_stats_def raw_weight_def)
  have rw: "raw_weight True (Fin 1) (Fin 1) = Fin 0"
    by (simp add: raw_weight_def)
  have j0: "(0::nat) < length [7, 9 :: int]" and j1: "(1::nat) < length [7, 9 :: int]"
    by simp_all
  show ?thesis
    using st rw reweight_zero_sum_unguarded [OF st j0] reweight_zero_sum_unguarded [OF st j1]
    by simp
qed

section \<open>Writing and loading the vocabulary file\<close>

lemma split_acc_clean:
  "\<forall>c \<in> set cur. \<not> sp c \<Longrightarrow> t \<in> set (split_acc sp cur s) \<Longrightarrow> \<forall>c \<in> set t. \<not> sp c"
proof (induction s arbitrary: cur)
  case Nil
  then show ?case by (auto split: if_splits)
next
  case (Cons c s)
  show ?case
  proof (cases "sp c")
    case True
    then have "t = cur \<or> t \<in> set (split_acc sp [] s)"
      using Cons.prems(2) by (auto split: if_splits)
    then show ?thesis
    proof
      assume "t = cur"
      then show ?thesis using Cons.prems(1) by simp
    next
      assume "t \<in> set (split_acc sp [] s)"
      then show ?thesis using Cons.IH[of "[]"] by simp
    qed
  next
    case False
    then have "t \<in> set (split_acc sp (cur @ [c]) s)" using Cons.prems(2) by simp
    moreover have "\<forall>x \<in> set (cur @ [c]). \<not> sp x" using False Cons.prems(1) by simp
    ultimately show ?thesis using Cons.IH[of "cur @ [c]"] by blast
  qed
qed

lemma basic_tokenizer_clean: "t \<in> set (basic_tokenizer line) \<Longrightarrow> clean t"
  unfolding basic_tokenizer_def split_by_def clean_def
  using split_acc_clean[of "[]" is_space t] by simp

lemma digit_sub_clean: "clean w \<Longrightarrow> clean (digit_sub w)"
  by (auto simp: clean_def digit_sub_def is_space_def)

lemma corpus_tokens_clean: "w \<in> set (corpus_tokens None nd data) \<Longrightarrow> clean w"
  by (auto simp: corpus_tokens_def tokenize_def norm_word_def basic_tokenizer_clean digit_sub_clean)

lemma start_vocab_clean: "w \<in> set START_VOCAB \<Longrightarrow> clean w"
  by (auto simp: START_VOCAB_def clean_def is_space_def)

lemma readlines_acc_line:
  "CHR 0x0A \<notin> set w \<Longrightarrow>
   readlines_acc cur (w @ CHR 0x0A # rest) = (cur @ w @ [CHR 0x0A]) # readlines_acc [] rest"
  by (induction w arbitrary: cur) auto

lemma readlines_written:
  "\<forall>w \<in> set ws. CHR 0x0A \<notin> set w \<Longrightarrow>
   readlines (concat (map (\<lambda>w. w @ [CHR 0x0A]) ws)) = map (\<lambda>w. w @ [CHR 0x0A]) ws"
  unfolding readlines_def
proof (induction ws)
  case Nil
  show ?case by simp
next
  case (Cons w ws)
  then show ?case using readlines_acc_line[of w "[]" "concat (map (\<lambda>w. w @ [CHR 0x0A]) ws)"] by simp
qed

lemma dropWhile_hd: "xs \<noteq> [] \<Longrightarrow> \<not> P (hd xs) \<Longrightarrow> dropWhile P xs = xs"
  by (cases xs) simp_all

lemma strip_written: "clean w \<Longrightarrow> strip_by is_space (w @ [CHR 0x0A]) = w"
proof (cases "w = []")
  case True
  then show ?thesis by (simp add: strip_by_def is_space_def)
next
  case False
  assume c: "clean w"
  have nl: "is_space (CHR 0x0A)" by (simp add: is_space_def)
  have "hd w \<in> set w" "last w \<in> set w" using False by simp_all
  then have h: "\<not> is_space (hd w)" and l: "\<not> is_space (last w)"
    using c by (simp_all add: clean_def)
  have "\<not> is_space (hd (w @ [CHR 0x0A]))" using False h by simp
  then have a: "dropWhile is_space (w @ [CHR 0x0A]) = w @ [CHR 0x0A]"
    by (intro dropWhile_hd) simp_all
  have "\<not> is_space (hd (rev w))" using False l by (simp add: hd_rev)
  then have "dropWhile is_space (rev w) = rev w"
    using False by (intro dropWhile_hd) simp_all
  then have b: "dropWhile is_space (rev (w @ [CHR 0x0A])) = rev w"
    using nl by simp
  show ?thesis by (simp only: strip_by_def a b rev_rev_ident)
qed

lemma dict_of_enumerate_snoc:
  "dict_of_enumerate (xs @ [x]) = AList.update x (int (length xs)) (dict_of_enumerate xs)"
  by (simp add: dict_of_enumerate_def enumerate_append_eq)

lemma dict_of_enumerate_sound:
  "map_of (dict_of_enumerate xs) w = Some i \<Longrightarrow> 0 \<le> i \<and> nat i < length xs \<and> xs ! nat i = w"
proof (induction xs arbitrary: w i rule: rev_induct)
  case Nil
  then show ?case by (simp add: dict_of_enumerate_def)
next
  case (snoc x xs)
  show ?case
  proof (cases "w = x")
    case True
    with snoc.prems have "i = int (length xs)"
      by (simp add: dict_of_enumerate_snoc update_conv')
    then show ?thesis using True by simp
  next
    case False
    with snoc.prems have "map_of (dict_of_enumerate xs) w = Some i"
      by (simp add: dict_of_enumerate_snoc update_conv')
    from snoc.IH[OF this] show ?thesis by (simp add: nth_append)
  qed
qed

lemma dict_of_enumerate_complete:
  "distinct xs \<Longrightarrow> i < length xs \<Longrightarrow> map_of (dict_of_enumerate xs) (xs ! i) = Some (int i)"
proof (induction xs arbitrary: i rule: rev_induct)
  case Nil
  then show ?case by simp
next
  case (snoc x xs)
  show ?case
  proof (cases "i < length xs")
    case True
    then have "xs ! i \<noteq> x" using snoc.prems(1) by auto
    then show ?thesis using True snoc by (simp add: dict_of_enumerate_snoc update_conv' nth_append)
  next
    case False
    with snoc.prems(2) have "i = length xs" by simp
    then show ?thesis by (simp add: dict_of_enumerate_snoc update_conv')
  qed
qed

lemma vocab_list_subset:
  "set (vocab_list data m tok nd) \<subseteq> set START_VOCAB \<union> set (corpus_tokens tok nd data)"
proof -
  obtain n where "vocab_list data m tok nd =
      take n (START_VOCAB @ sorted_by_count (count_file tok nd data))"
    using vocab_list_take by blast
  then have "set (vocab_list data m tok nd) \<subseteq>
      set (START_VOCAB @ sorted_by_count (count_file tok nd data))"
    by (simp only: set_take_subset)
  then show ?thesis using sorted_by_count_ranked(2)[of tok nd data] by simp
qed

lemma vocab_list_distinct:
  assumes "set (corpus_tokens tok nd data) \<inter> set START_VOCAB = {}"
  shows "distinct (vocab_list data m tok nd)"
proof -
  obtain n where n: "vocab_list data m tok nd =
      take n (START_VOCAB @ sorted_by_count (count_file tok nd data))"
    using vocab_list_take by blast
  have "distinct START_VOCAB" by (simp add: START_VOCAB_def)
  then have "distinct (START_VOCAB @ sorted_by_count (count_file tok nd data))"
    using assms sorted_by_count_ranked(1,2)[of tok nd data] by auto
  then show ?thesis by (simp only: n distinct_take)
qed

lemma vocabulary_file_loaded:
  "initialize_vocabulary (Some (create_vocabulary data m None nd)) =
     Inr (dict_of_enumerate (vocab_list data m None nd), vocab_list data m None nd)"
proof -
  define vl where "vl = vocab_list data m None nd"
  have c: "\<forall>w \<in> set vl. clean w"
    using vocab_list_subset[of data m None nd] start_vocab_clean corpus_tokens_clean
    unfolding vl_def by blast
  then have "\<forall>w \<in> set vl. CHR 0x0A \<notin> set w" by (auto simp: clean_def is_space_def)
  then have "readlines (concat (map (\<lambda>w. w @ [CHR 0x0A]) vl)) = map (\<lambda>w. w @ [CHR 0x0A]) vl"
    by (rule readlines_written)
  moreover have "map (strip_by is_space) (map (\<lambda>w. w @ [CHR 0x0A]) vl) = vl"
    using c by (simp add: strip_written map_idI)
  ultimately show ?thesis
    by (simp add: initialize_vocabulary_def create_vocabulary_def vl_def[symmetric] Let_def)
qed

text \<open>
  Claim C2, as stated: for every corpus, also one whose tokens coincide with a reserved
  symbol, the loaded dict and list are exact inverses. For the corpus \<^verbatim>\<open>_PAD\<close> the list
  holds \<^verbatim>\<open>_PAD\<close> at the indices 0 and 4 and the dict maps it to 4 only.
\<close>

theorem vocabulary_inverse_counterexample:
  "initialize_vocabulary (Some (create_vocabulary ''_PAD'' 10 None False)) =
     Inr ([(''_PAD'', 4), (''_GO'', 1), (''_EOS'', 2), (''_UNK'', 3)],
          [''_PAD'', ''_GO'', ''_EOS'', ''_UNK'', ''_PAD'']) \<and>
   \<not> exact_inverses [(''_PAD'', 4), (''_GO'', 1), (''_EOS'', 2), (''_UNK'', 3)]
          [''_PAD'', ''_GO'', ''_EOS'', ''_UNK'', ''_PAD'']"
proof
  show "initialize_vocabulary (Some (create_vocabulary ''_PAD'' 10 None False)) =
     Inr ([(''_PAD'', 4), (''_GO'', 1), (''_EOS'', 2), (''_UNK'', 3)],
          [''_PAD'', ''_GO'', ''_EOS'', ''_UNK'', ''_PAD''])"
    by code_simp
next
  show "\<not> exact_inverses [(''_PAD'', 4), (''_GO'', 1), (''_EOS'', 2), (''_UNK'', 3)]
          [''_PAD'', ''_GO'', ''_EOS'', ''_UNK'', ''_PAD'']"
  proof
    assume "exact_inverses [(''_PAD'', 4), (''_GO'', 1), (''_EOS'', 2), (''_UNK'', 3)]
          [''_PAD'', ''_GO'', ''_EOS'', ''_UNK'', ''_PAD'']"
    then have "map_of [(''_PAD'', 4), (''_GO'', 1), (''_EOS'', 2), (''_UNK'', 3)]
          ([''_PAD'', ''_GO'', ''_EOS'', ''_UNK'', ''_PAD''] ! 0) = Some (int 0)"
      unfolding exact_inverses_def by (metis length_greater_0_conv list.distinct(1))
    then show False by simp
  qed
qed

text \<open>
  Claim C2, amended. For every corpus, size bound and digit flag, with the default
  tokenizer: loading the file that \<^verbatim>\<open>create_vocabulary\<close> writes gives back the list written
  and the dict of its enumeration; every token of the dict stands in the list at its id;
  and the dict and the list are exact inverses whenever no corpus token coincides with
  one of the reserved symbols \<^verbatim>\<open>_PAD\<close>, \<^verbatim>\<open>_GO\<close>, \<^verbatim>\<open>_EOS\<close>, \<^verbatim>\<open>_UNK\<close>.
\<close>

theorem vocabulary_inverse:
  "initialize_vocabulary (Some (create_vocabulary data max_vocabulary_size None normalize_digits)) =
     Inr (dict_of_enumerate (vocab_list data max_vocabulary_size None normalize_digits),
          vocab_list data max_vocabulary_size None normalize_digits) \<and>
   (\<forall>w i. map_of (dict_of_enumerate (vocab_list data max_vocabulary_size None normalize_digits)) w
             = Some i \<longrightarrow>
      0 \<le> i \<and> nat i < length (vocab_list data max_vocabulary_size None normalize_digits) \<and>
      vocab_list data max_vocabulary_size None normalize_digits ! nat i = w) \<and>
   (set (corpus_tokens None normalize_digits data) \<inter> set START_VOCAB = {} \<longrightarrow>
      exact_inverses (dict_of_enumerate (vocab_list data max_vocabulary_size None normalize_digits))
        (vocab_list data max_vocabulary_size None normalize_digits))"
proof (intro conjI allI impI)
  show "initialize_vocabulary (Some (create_vocabulary data max_vocabulary_size None normalize_digits)) =
     Inr (dict_of_enumerate (vocab_list data max_vocabulary_size None normalize_digits),
          vocab_list data max_vocabulary_size None normalize_digits)"
    by (rule vocabulary_file_loaded)
next
  fix w i
  assume "map_of (dict_of_enumerate (vocab_list data max_vocabulary_size None normalize_digits)) w
            = Some i"
  from dict_of_enumerate_sound[OF this]
  show "0 \<le> i" "nat i < length (vocab_list data max_vocabulary_size None normalize_digits)"
    "vocab_list data max_vocabulary_size None normalize_digits ! nat i = w"
    by simp_all
next
  assume "set (corpus_tokens None normalize_digits data) \<inter> set START_VOCAB = {}"
  then have d: "distinct (vocab_list data max_vocabulary_size None normalize_digits)"
    by (rule vocab_list_distinct)
  show "exact_inverses (dict_of_enumerate (vocab_list data max_vocabulary_size None normalize_digits))
        (vocab_list data max_vocabulary_size None normalize_digits)"
    unfolding exact_inverses_def
    using dict_of_enumerate_complete[OF d] dict_of_enumerate_sound by blast
qed

theorem vocabulary_inverse_witness:
  "set (corpus_tokens None False ''b a a'') \<inter> set START_VOCAB = {} \<and>
   initialize_vocabulary (Some (create_vocabulary ''b a a'' 10 None False)) =
     Inr ([(''_PAD'', 0), (''_GO'', 1), (''_EOS'', 2), (''_UNK'', 3), (''a'', 4), (''b'', 5)],
          [''_PAD'', ''_GO'', ''_EOS'', ''_UNK'', ''a'', ''b'']) \<and>
   map_of (dict_of_enumerate (vocab_list ''b a a'' 10 None False)) ''a'' = Some 4 \<and>
   vocab_list ''b a a'' 10 None False ! nat 4 = ''a'' \<and>
   exact_inverses (dict_of_enumerate (vocab_list ''b a a'' 10 None False))
     (vocab_list ''b a a'' 10 None False)"
proof -
  have t: "corpus_tokens None False ''b a a'' = [''b'', ''a'', ''a'']" by code_simp
  have h: "set (corpus_tokens None False ''b a a'') \<inter> set START_VOCAB = {}"
    by (simp add: t START_VOCAB_def)
  have e: "initialize_vocabulary (Some (create_vocabulary ''b a a'' 10 None False)) =
     Inr ([(''_PAD'', 0), (''_GO'', 1), (''_EOS'', 2), (''_UNK'', 3), (''a'', 4), (''b'', 5)],
          [''_PAD'', ''_GO'', ''_EOS'', ''_UNK'', ''a'', ''b''])"
    by code_simp
  have m: "map_of (dict_of_enumerate (vocab_list ''b a a'' 10 None False)) ''a'' = Some 4"
    by code_simp
  note inst = vocabulary_inverse [of "''b a a''" 10 False]
  from inst[THEN conjunct2, THEN conjunct1, rule_format, OF m]
  have n: "vocab_list ''b a a'' 10 None False ! nat 4 = ''a''" by simp
  from inst[THEN conjunct2, THEN conjunct2, rule_format, OF h]
  have x: "exact_inverses (dict_of_enumerate (vocab_list ''b a a'' 10 None False))
     (vocab_list ''b a a'' 10 None False)" .
  show ?thesis using h e m n x by simp
qed

end
